theory Spec2Isabelle
  imports Main "HOL-Library.Word"
begin

unbundle bit_operations_syntax

section \<open>Data model of cachesim.c\<close>

text \<open>
  A cache line (\<^verbatim>\<open>struct line\<close>): \<^verbatim>\<open>int valid; unsigned long tag; int lru;\<close>.
  The tag is a 64-bit word. \<^verbatim>\<open>valid\<close> and \<^verbatim>\<open>lru\<close> are C ints kept as integers: the
  only arithmetic on them is \<^verbatim>\<open>lru + 1\<close> under the guard \<^verbatim>\<open>lru < cache_line->lru\<close>,
  which cannot leave the range of \<^verbatim>\<open>int\<close>.
\<close>

record line =
  valid :: int
  tag :: "64 word"
  lru :: int

text \<open>
  \<^verbatim>\<open>struct set\<close> holds only the pointer \<^verbatim>\<open>lines\<close>: a set is the array of its lines.
  \<^verbatim>\<open>struct cache\<close> holds the array of sets and the four ints \<^verbatim>\<open>s\<close>, \<^verbatim>\<open>E\<close>, \<^verbatim>\<open>b\<close>,
  \<^verbatim>\<open>S\<close> (fields \<open>c_s\<close>, \<open>c_E\<close>, \<open>c_b\<close>, \<open>c_S\<close>).
\<close>

record cache =
  sets :: "line list list"
  c_s :: int
  c_E :: int
  c_b :: int
  c_S :: int

text \<open>
  The three counters that \<^verbatim>\<open>access_cache\<close> receives by pointer (\<^verbatim>\<open>hit\<close>, \<^verbatim>\<open>miss\<close>,
  \<^verbatim>\<open>evictions\<close>). They are C ints. \<^verbatim>\<open>*hit += 1\<close> on a counter that holds \<open>INT_MAX\<close>
  overflows, which C leaves undefined: the model keeps the counters as integers and
  returns \<open>SignedOverflow\<close> there.
\<close>

record counts =
  hit :: int
  miss :: int
  evictions :: int

text \<open>
  What C leaves undefined, or what ends the run early, is a value of \<open>error\<close>:
  \<open>UsageExit\<close> is \<^verbatim>\<open>print_usage\<close> (which exits), \<open>AllocError\<close> a \<^verbatim>\<open>malloc\<close> that
  returned \<^verbatim>\<open>NULL\<close>, \<open>UndefinedShift\<close> a shift by a negative amount or by at least
  the width of the shifted type (or, for the signed \<^verbatim>\<open>1 << s\<close>, a result that does not
  fit), \<open>OutOfBounds\<close> an index outside the array it is applied to, \<open>SignedOverflow\<close> an
  increment of an \<^verbatim>\<open>int\<close> that holds \<open>INT_MAX\<close>.
\<close>

datatype error = UsageExit | AllocError | UndefinedShift | OutOfBounds | SignedOverflow

text \<open>The largest value of a C \<^verbatim>\<open>int\<close> (32 bits).\<close>

definition INT_MAX :: int where
  "INT_MAX = 2147483647"

text \<open>
  \<^verbatim>\<open>access_cache\<close> returns at three places; under the verbose flag they print
  \<^verbatim>\<open>hit\<close>, \<^verbatim>\<open>miss\<close> and \<^verbatim>\<open>miss eviction\<close>.
\<close>

datatype outcome = Hit | MissFill | MissEvict

section \<open>Construction\<close>

text \<open>Sizes of the three structs on an LP64 target (where \<^verbatim>\<open>unsigned long\<close> has 64 bits).\<close>

definition sizeof_cache :: nat where
  "sizeof_cache = 24"

definition sizeof_set :: nat where
  "sizeof_set = 8"

definition sizeof_line :: nat where
  "sizeof_line = 24"

text \<open>\<^verbatim>\<open>(size_t)n * sz\<close>: the conversion to \<^verbatim>\<open>size_t\<close> and the product wrap at \<open>2^64\<close>.\<close>

definition size_request :: "int \<Rightarrow> nat \<Rightarrow> nat" where
  "size_request n sz = (nat (n mod 2 ^ 64) * sz) mod 2 ^ 64"

text \<open>
  The inner loop of \<^verbatim>\<open>makecache\<close> writes \<^verbatim>\<open>valid = 0\<close>, \<^verbatim>\<open>tag = 0\<close>, \<^verbatim>\<open>lru = 0\<close> into
  lines \<open>0 .. E-1\<close> of the new array (into none when \<open>E \<le> 0\<close>).
\<close>

definition fresh_lines :: "int \<Rightarrow> line list" where
  "fresh_lines E = replicate (nat E) \<lparr>valid = 0, tag = 0, lru = 0\<rparr>"

text \<open>
  The outer loop \<^verbatim>\<open>for (int i = 0; i < S; i++)\<close>: one \<^verbatim>\<open>malloc\<close> per set, failure
  returns \<^verbatim>\<open>NULL\<close> at once. \<open>ok n\<close> says whether \<^verbatim>\<open>malloc\<close> grants a request of
  \<open>n\<close> bytes; it is a parameter of the model.
\<close>

function alloc_sets :: "(nat \<Rightarrow> bool) \<Rightarrow> int \<Rightarrow> int \<Rightarrow> nat \<Rightarrow> line list list \<Rightarrow> error + line list list" where
  "alloc_sets ok S E i acc =
     (if int i < S
      then (if ok (size_request E sizeof_line)
            then alloc_sets ok S E (i + 1) (acc @ [fresh_lines E])
            else Inl AllocError)
      else Inr acc)"
  by pat_completeness auto
termination
  by (relation "measure (\<lambda>(ok, S, E, i, acc). nat (S - int i))") auto

declare alloc_sets.simps [simp del]

text \<open>
  \<^verbatim>\<open>makecache\<close>. \<^verbatim>\<open>int S = 1 << s\<close> is defined only for \<open>0 \<le> s \<le> 30\<close>. Nothing else
  about \<open>s\<close>, \<open>E\<close> or \<open>b\<close> is checked.
\<close>

definition makecache :: "(nat \<Rightarrow> bool) \<Rightarrow> int \<Rightarrow> int \<Rightarrow> int \<Rightarrow> error + cache" where
  "makecache ok s E b =
     (if s < 0 \<or> 31 \<le> s then Inl UndefinedShift
      else if ok sizeof_cache
      then (if ok (size_request (2 ^ nat s) sizeof_set)
            then (case alloc_sets ok (2 ^ nat s) E 0 [] of
                    Inl e \<Rightarrow> Inl e
                  | Inr ss \<Rightarrow> Inr \<lparr>sets = ss, c_s = s, c_E = E, c_b = b, c_S = 2 ^ nat s\<rparr>)
            else Inl AllocError)
      else Inl AllocError)"

text \<open>
  The part of \<^verbatim>\<open>main\<close> between option parsing and opening the trace: \<open>h\<close> is the help
  flag, \<open>no_args\<close> is \<^verbatim>\<open>argv[1] == NULL\<close>, \<open>no_trace\<close> is \<^verbatim>\<open>t == NULL\<close>; \<open>s\<close>, \<open>E\<close>,
  \<open>b\<close> are what \<^verbatim>\<open>atoi\<close> returned (0 when the option is absent).
\<close>

definition main_init :: "(nat \<Rightarrow> bool) \<Rightarrow> int \<Rightarrow> bool \<Rightarrow> int \<Rightarrow> int \<Rightarrow> int \<Rightarrow> bool \<Rightarrow> error + cache" where
  "main_init ok h no_args s E b no_trace =
     (if h = 1 \<or> no_args \<or> s = 0 \<or> E = 0 \<or> b = 0 \<or> no_trace then Inl UsageExit
      else makecache ok s E b)"

section \<open>Access\<close>

text \<open>
  \<^verbatim>\<open>lru_update(c, inset, cache_line)\<close>. \<^verbatim>\<open>cache_line\<close> points into \<^verbatim>\<open>inset->lines\<close>;
  the model passes its index \<open>k\<close> and reads \<^verbatim>\<open>cache_line->lru\<close> from the current
  array in every iteration, as the C does. The function is \<open>lru_update_fun\<close> here,
  since \<open>lru_update\<close> is the update of the record field \<open>lru\<close>.
\<close>

function lru_loop :: "int \<Rightarrow> line list \<Rightarrow> nat \<Rightarrow> nat \<Rightarrow> error + line list" where
  "lru_loop E ls k i =
     (if int i < E
      then (if length ls \<le> i \<or> length ls \<le> k then Inl OutOfBounds
            else if valid (ls ! i) \<noteq> 0 \<and> lru (ls ! i) < lru (ls ! k)
            then lru_loop E (ls[i := (ls ! i)\<lparr>lru := lru (ls ! i) + 1\<rparr>]) k (i + 1)
            else lru_loop E ls k (i + 1))
      else Inr ls)"
  by pat_completeness auto
termination
  by (relation "measure (\<lambda>(E, ls, k, i). nat (E - int i))") auto

declare lru_loop.simps [simp del]

definition lru_update_fun :: "cache \<Rightarrow> line list \<Rightarrow> nat \<Rightarrow> error + line list" where
  "lru_update_fun c ls k =
     (case lru_loop (c_E c) ls k 0 of
        Inl e \<Rightarrow> Inl e
      | Inr ls' \<Rightarrow> if length ls' \<le> k then Inl OutOfBounds
                  else Inr (ls'[k := (ls' ! k)\<lparr>lru := 0\<rparr>]))"

text \<open>
  \<^verbatim>\<open>find_lru\<close>: the first line whose \<^verbatim>\<open>lru\<close> equals \<^verbatim>\<open>E - 1\<close>; \<^verbatim>\<open>lru_idx\<close> keeps its
  initial value 0 when there is none.
\<close>

function find_lru_loop :: "int \<Rightarrow> line list \<Rightarrow> nat \<Rightarrow> error + nat" where
  "find_lru_loop E ls i =
     (if int i < E
      then (if length ls \<le> i then Inl OutOfBounds
            else if lru (ls ! i) = E - 1 then Inr i
            else find_lru_loop E ls (i + 1))
      else Inr 0)"
  by pat_completeness auto
termination
  by (relation "measure (\<lambda>(E, ls, i). nat (E - int i))") auto

declare find_lru_loop.simps [simp del]

definition find_lru :: "cache \<Rightarrow> line list \<Rightarrow> error + nat" where
  "find_lru c ls = find_lru_loop (c_E c) ls 0"

text \<open>The first loop of \<^verbatim>\<open>access_cache\<close>: the first valid line that holds the tag.\<close>

function hit_scan :: "int \<Rightarrow> line list \<Rightarrow> 64 word \<Rightarrow> nat \<Rightarrow> error + nat option" where
  "hit_scan E ls tg i =
     (if int i < E
      then (if length ls \<le> i then Inl OutOfBounds
            else if valid (ls ! i) \<noteq> 0 \<and> tag (ls ! i) = tg then Inr (Some i)
            else hit_scan E ls tg (i + 1))
      else Inr None)"
  by pat_completeness auto
termination
  by (relation "measure (\<lambda>(E, ls, tg, i). nat (E - int i))") auto

declare hit_scan.simps [simp del]

text \<open>The second loop: the first line that is not valid.\<close>

function empty_scan :: "int \<Rightarrow> line list \<Rightarrow> nat \<Rightarrow> error + nat option" where
  "empty_scan E ls i =
     (if int i < E
      then (if length ls \<le> i then Inl OutOfBounds
            else if valid (ls ! i) = 0 then Inr (Some i)
            else empty_scan E ls (i + 1))
      else Inr None)"
  by pat_completeness auto
termination
  by (relation "measure (\<lambda>(E, ls, i). nat (E - int i))") auto

declare empty_scan.simps [simp del]

text \<open>
  The address decomposition, lines 265 and 268. Each of the three shifts is on an
  \<^verbatim>\<open>unsigned long\<close>, so its amount has to lie in \<open>0 .. 63\<close>.
\<close>

definition shifts_defined :: "cache \<Rightarrow> bool" where
  "shifts_defined c =
     (0 \<le> c_b c \<and> c_b c < 64 \<and> 0 \<le> c_s c \<and> c_s c < 64 \<and> c_s c + c_b c < 64)"

definition set_index :: "cache \<Rightarrow> 64 word \<Rightarrow> nat" where
  "set_index c address =
     unat (drop_bit (nat (c_b c)) address AND (push_bit (nat (c_s c)) 1 - 1))"

definition block_tag :: "cache \<Rightarrow> 64 word \<Rightarrow> 64 word" where
  "block_tag c address = drop_bit (nat (c_s c + c_b c)) address"

text \<open>
  The three ways \<^verbatim>\<open>access_cache\<close> ends, each finishing with \<^verbatim>\<open>lru_update\<close>. Each
  increments its counters first (\<^verbatim>\<open>*hit += 1\<close>, \<^verbatim>\<open>*miss += 1\<close>, \<^verbatim>\<open>*evictions += 1\<close>),
  which is undefined for a counter at \<open>INT_MAX\<close>.
\<close>

definition touch :: "cache \<Rightarrow> nat \<Rightarrow> line list \<Rightarrow> nat \<Rightarrow> outcome \<Rightarrow> counts \<Rightarrow> error + (outcome \<times> cache \<times> counts)" where
  "touch c cache_set ls k out n =
     (case lru_update_fun c ls k of
        Inl e \<Rightarrow> Inl e
      | Inr ls' \<Rightarrow> Inr (out, c\<lparr>sets := (sets c)[cache_set := ls']\<rparr>, n))"

definition access_cache :: "cache \<Rightarrow> 64 word \<Rightarrow> counts \<Rightarrow> error + (outcome \<times> cache \<times> counts)" where
  "access_cache c address n =
     (if shifts_defined c
      then (let cache_set = set_index c address; tg = block_tag c address
            in if length (sets c) \<le> cache_set then Inl OutOfBounds
               else (let ls = sets c ! cache_set
                     in case hit_scan (c_E c) ls tg 0 of
                          Inl e \<Rightarrow> Inl e
                        | Inr (Some i) \<Rightarrow>
                            if INT_MAX \<le> hit n then Inl SignedOverflow
                            else touch c cache_set ls i Hit (n\<lparr>hit := hit n + 1\<rparr>)
                        | Inr None \<Rightarrow>
                           (case empty_scan (c_E c) ls 0 of
                              Inl e \<Rightarrow> Inl e
                            | Inr (Some i) \<Rightarrow>
                                if INT_MAX \<le> miss n then Inl SignedOverflow
                                else touch c cache_set (ls[i := (ls ! i)\<lparr>valid := 1, tag := tg\<rparr>]) i
                                       MissFill (n\<lparr>miss := miss n + 1\<rparr>)
                            | Inr None \<Rightarrow>
                               (case find_lru c ls of
                                  Inl e \<Rightarrow> Inl e
                                | Inr lru_idx \<Rightarrow>
                                    if INT_MAX \<le> miss n \<or> INT_MAX \<le> evictions n then Inl SignedOverflow
                                    else if length ls \<le> lru_idx then Inl OutOfBounds
                                    else touch c cache_set (ls[lru_idx := (ls ! lru_idx)\<lparr>tag := tg\<rparr>])
                                           lru_idx MissEvict
                                           (n\<lparr>miss := miss n + 1, evictions := evictions n + 1\<rparr>)))))
      else Inl UndefinedShift)"

section \<open>The trace driver\<close>

text \<open>
  \<^verbatim>\<open>runsim\<close> over the decoded records of the trace (operation, address, size):
  \<^verbatim>\<open>L\<close> and \<^verbatim>\<open>S\<close> access once, \<^verbatim>\<open>M\<close> accesses twice, anything else is skipped.
\<close>

fun runsim :: "cache \<Rightarrow> (char \<times> 64 word \<times> int) list \<Rightarrow> counts \<Rightarrow> error + (cache \<times> counts)" where
  "runsim c [] n = Inr (c, n)"
| "runsim c ((operation, address, sz) # rest) n =
     (if operation = CHR ''L'' \<or> operation = CHR ''S''
      then (case access_cache c address n of
              Inl e \<Rightarrow> Inl e
            | Inr (out, c', n') \<Rightarrow> runsim c' rest n')
      else if operation = CHR ''M''
      then (case access_cache c address n of
              Inl e \<Rightarrow> Inl e
            | Inr (out, c', n') \<Rightarrow>
               (case access_cache c' address n' of
                  Inl e \<Rightarrow> Inl e
                | Inr (out', c'', n'') \<Rightarrow> runsim c'' rest n''))
      else runsim c rest n)"

text \<open>
  \<^verbatim>\<open>main\<close> as a whole: the start-up above, then \<^verbatim>\<open>runsim\<close> on the trace with the
  three counters at 0; the counters are what \<^verbatim>\<open>print_summary\<close> prints. The trace
  file is taken as opened, \<open>trace\<close> being its records.
\<close>

definition main_run :: "(nat \<Rightarrow> bool) \<Rightarrow> int \<Rightarrow> bool \<Rightarrow> int \<Rightarrow> int \<Rightarrow> int \<Rightarrow> bool \<Rightarrow> (char \<times> 64 word \<times> int) list \<Rightarrow> error + (cache \<times> counts)" where
  "main_run ok h no_args s E b no_trace trace =
     (case main_init ok h no_args s E b no_trace of
        Inl e \<Rightarrow> Inl e
      | Inr c \<Rightarrow> runsim c trace \<lparr>hit = 0, miss = 0, evictions = 0\<rparr>)"

text \<open>A \<^verbatim>\<open>malloc\<close> that grants every request.\<close>

definition unlimited :: "nat \<Rightarrow> bool" where
  "unlimited n = True"

section \<open>A two-way example\<close>

text \<open>
  The program started as \<^verbatim>\<open>-s 1 -E 2 -b 1\<close>: two sets of two lines, blocks of two bytes.
  The addresses 0, 4 and 8 all fall into set 0, with the tags 0, 1 and 2.
  \<open>ex_fresh\<close> is the cache \<^verbatim>\<open>makecache\<close> returns, \<open>ex_one\<close> the cache after the load of
  0, \<open>ex_full\<close> the cache after the loads of 0 and 4, \<open>ex_evicted\<close> the cache after the
  loads of 0, 4, 0 and 8.
\<close>

definition zero_counts :: counts where
  "zero_counts = \<lparr>hit = 0, miss = 0, evictions = 0\<rparr>"

definition ex_fresh :: cache where
  "ex_fresh =
     \<lparr>sets = [[\<lparr>valid = 0, tag = 0, lru = 0\<rparr>, \<lparr>valid = 0, tag = 0, lru = 0\<rparr>],
              [\<lparr>valid = 0, tag = 0, lru = 0\<rparr>, \<lparr>valid = 0, tag = 0, lru = 0\<rparr>]],
      c_s = 1, c_E = 2, c_b = 1, c_S = 2\<rparr>"

definition ex_one :: cache where
  "ex_one =
     \<lparr>sets = [[\<lparr>valid = 1, tag = 0, lru = 0\<rparr>, \<lparr>valid = 0, tag = 0, lru = 0\<rparr>],
              [\<lparr>valid = 0, tag = 0, lru = 0\<rparr>, \<lparr>valid = 0, tag = 0, lru = 0\<rparr>]],
      c_s = 1, c_E = 2, c_b = 1, c_S = 2\<rparr>"

definition ex_full :: cache where
  "ex_full =
     \<lparr>sets = [[\<lparr>valid = 1, tag = 0, lru = 0\<rparr>, \<lparr>valid = 1, tag = 1, lru = 0\<rparr>],
              [\<lparr>valid = 0, tag = 0, lru = 0\<rparr>, \<lparr>valid = 0, tag = 0, lru = 0\<rparr>]],
      c_s = 1, c_E = 2, c_b = 1, c_S = 2\<rparr>"

definition ex_evicted :: cache where
  "ex_evicted =
     \<lparr>sets = [[\<lparr>valid = 1, tag = 2, lru = 0\<rparr>, \<lparr>valid = 1, tag = 1, lru = 0\<rparr>],
              [\<lparr>valid = 0, tag = 0, lru = 0\<rparr>, \<lparr>valid = 0, tag = 0, lru = 0\<rparr>]],
      c_s = 1, c_E = 2, c_b = 1, c_S = 2\<rparr>"

text \<open>
  The program started as \<^verbatim>\<open>-s 4 -E 1 -b 60\<close>: \<open>s + b\<close> is 64, and \<^verbatim>\<open>makecache\<close> returns
  \<open>ex_wide\<close>, 16 sets of one line.
\<close>

definition ex_wide :: cache where
  "ex_wide = \<lparr>sets = replicate 16 (fresh_lines 1), c_s = 4, c_E = 1, c_b = 60, c_S = 16\<rparr>"

text \<open>
  The program started as \<^verbatim>\<open>-s 32 -E 1 -b 1\<close>: \<^verbatim>\<open>1 << 32\<close> on an \<^verbatim>\<open>int\<close> is undefined. Where
  the shift amount is taken modulo 32, as the x86 shift instruction does, \<open>S\<close> is 1 and
  \<^verbatim>\<open>makecache\<close> builds \<open>ex_s32\<close>, one set of one line, while \<^verbatim>\<open>access_cache\<close> masks the
  set index with \<open>2^32 - 1\<close>. Whatever else \<open>S\<close> may be, it is an \<^verbatim>\<open>int\<close>, below \<open>2^31\<close>.
\<close>

definition ex_s32 :: cache where
  "ex_s32 = \<lparr>sets = replicate 1 (fresh_lines 1), c_s = 32, c_E = 1, c_b = 1, c_S = 1\<rparr>"

text \<open>
  A cache of one set whose two lines carry the recencies 0 and 1, the same cache after
  a hit on its second line (tag 7), and after a miss on tag 9 instead. (No run of the
  program reaches them.)
\<close>

definition ex_ranked :: cache where
  "ex_ranked =
     \<lparr>sets = [[\<lparr>valid = 1, tag = 5, lru = 0\<rparr>, \<lparr>valid = 1, tag = 7, lru = 1\<rparr>]],
      c_s = 0, c_E = 2, c_b = 0, c_S = 1\<rparr>"

definition ex_reranked :: cache where
  "ex_reranked =
     \<lparr>sets = [[\<lparr>valid = 1, tag = 5, lru = 1\<rparr>, \<lparr>valid = 1, tag = 7, lru = 0\<rparr>]],
      c_s = 0, c_E = 2, c_b = 0, c_S = 1\<rparr>"

definition ex_ranked_evicted :: cache where
  "ex_ranked_evicted =
     \<lparr>sets = [[\<lparr>valid = 1, tag = 5, lru = 1\<rparr>, \<lparr>valid = 1, tag = 9, lru = 0\<rparr>]],
      c_s = 0, c_E = 2, c_b = 0, c_S = 1\<rparr>"

section \<open>What holds in every cache the program can reach\<close>

text \<open>
  Every line of a set has \<open>lru = 0\<close>, and the set has \<open>E\<close> lines. \<^verbatim>\<open>makecache\<close> writes
  0 into every \<open>lru\<close>, and \<^verbatim>\<open>lru_update\<close> increments only a line whose \<open>lru\<close> is below
  that of the touched line, so no \<open>lru\<close> ever leaves 0.
\<close>

definition zero_lru :: "int \<Rightarrow> line list \<Rightarrow> bool" where
  "zero_lru E ls = (length ls = nat E \<and> list_all (\<lambda>l. lru l = 0) ls)"

definition cache_inv :: "int \<Rightarrow> int \<Rightarrow> int \<Rightarrow> cache \<Rightarrow> bool" where
  "cache_inv s E b c =
     (c_s c = s \<and> c_E c = E \<and> c_b c = b \<and> c_S c = 2 ^ nat s \<and> 0 \<le> s \<and> s \<le> 30 \<and>
      length (sets c) = 2 ^ nat s \<and> list_all (zero_lru E) (sets c))"

text \<open>
  The trace that loads address 0 \<open>k\<close> times.
\<close>

definition repeat_load :: "nat \<Rightarrow> (char \<times> 64 word \<times> int) list" where
  "repeat_load k = replicate k (CHR ''L'', 0, 1)"

text \<open>
  What \<^verbatim>\<open>find_lru\<close> relies on: the set has \<open>E\<close> lines, no recency is above \<open>E - 1\<close> and
  one line has the recency \<open>E - 1\<close>. A full set whose recencies are \<open>0, ..., E - 1\<close> in
  some order is of this kind.
\<close>

definition ranked :: "int \<Rightarrow> line list \<Rightarrow> bool" where
  "ranked E ls =
     (length ls = nat E \<and> list_all (\<lambda>l. lru l \<le> E - 1) ls \<and> list_ex (\<lambda>l. lru l = E - 1) ls)"

section \<open>Construction: lemmas\<close>

lemma alloc_sets_Inr:
  "alloc_sets ok S E i acc = Inr ss \<Longrightarrow> ss = acc @ replicate (nat S - i) (fresh_lines E)"
proof (induction ok S E i acc rule: alloc_sets.induct)
  case (1 ok S E i acc)
  show ?case
  proof (cases "int i < S")
    case True
    with "1.prems" have g: "ok (size_request E sizeof_line)"
      and r: "alloc_sets ok S E (i + 1) (acc @ [fresh_lines E]) = Inr ss"
      by (auto simp: alloc_sets.simps [of ok S E i acc] split: if_splits)
    from "1.IH" [OF True g r] have "ss = (acc @ [fresh_lines E]) @ replicate (nat S - (i + 1)) (fresh_lines E)" .
    moreover from True have "nat S - i = Suc (nat S - (i + 1))" by linarith
    ultimately show ?thesis by (simp add: replicate_app_Cons_same)
  next
    case False
    with "1.prems" show ?thesis by (simp add: alloc_sets.simps [of ok S E i acc])
  qed
qed

lemma alloc_sets_granted:
  "ok (size_request E sizeof_line) \<Longrightarrow> \<exists>ss. alloc_sets ok S E i acc = Inr ss"
proof (induction ok S E i acc rule: alloc_sets.induct)
  case (1 ok S E i acc)
  then show ?case by (simp add: alloc_sets.simps [of ok S E i acc])
qed

lemma alloc_sets_refused:
  "\<not> ok (size_request E sizeof_line) \<Longrightarrow> int i < S \<Longrightarrow> alloc_sets ok S E i acc = Inl AllocError"
  by (simp add: alloc_sets.simps [of ok S E i acc])

lemma alloc_sets_eq:
  "ok (size_request E sizeof_line) \<Longrightarrow>
   alloc_sets ok S E i acc = Inr (acc @ replicate (nat S - i) (fresh_lines E))"
  using alloc_sets_granted [of ok E S i acc] alloc_sets_Inr [of ok S E i acc] by auto

lemma makecache_eq:
  "0 \<le> s \<Longrightarrow> s \<le> 30 \<Longrightarrow> ok sizeof_cache \<Longrightarrow> ok (size_request (2 ^ nat s) sizeof_set) \<Longrightarrow>
   ok (size_request E sizeof_line) \<Longrightarrow>
   makecache ok s E b =
     Inr \<lparr>sets = replicate (2 ^ nat s) (fresh_lines E), c_s = s, c_E = E, c_b = b, c_S = 2 ^ nat s\<rparr>"
  by (simp add: makecache_def alloc_sets_eq)

lemma makecache_Inr:
  assumes "makecache ok s E b = Inr c"
  shows "0 \<le> s \<and> s \<le> 30 \<and> ok sizeof_cache \<and> ok (size_request (2 ^ nat s) sizeof_set) \<and>
         ok (size_request E sizeof_line) \<and>
         c = \<lparr>sets = replicate (2 ^ nat s) (fresh_lines E), c_s = s, c_E = E, c_b = b, c_S = 2 ^ nat s\<rparr>"
proof -
  from assms have s: "0 \<le> s" "s \<le> 30" and a: "ok sizeof_cache" "ok (size_request (2 ^ nat s) sizeof_set)"
    by (auto simp: makecache_def split: if_splits)
  have l: "ok (size_request E sizeof_line)"
  proof (rule ccontr)
    assume "\<not> ok (size_request E sizeof_line)"
    then have "alloc_sets ok (2 ^ nat s) E 0 [] = Inl AllocError"
      by (intro alloc_sets_refused) simp_all
    with assms s a show False by (simp add: makecache_def)
  qed
  from assms show ?thesis using s a l by (simp add: makecache_eq)
qed

lemma makecache_Inl:
  assumes "0 \<le> s" "s \<le> 30" "makecache ok s E b = Inl e"
  shows "e = AllocError \<and>
         \<not> (ok sizeof_cache \<and> ok (size_request (2 ^ nat s) sizeof_set) \<and> ok (size_request E sizeof_line))"
proof -
  have n: "\<not> (ok sizeof_cache \<and> ok (size_request (2 ^ nat s) sizeof_set) \<and> ok (size_request E sizeof_line))"
    using makecache_eq [OF assms(1,2), of ok E b] assms(3) by auto
  have "e = AllocError"
  proof (cases "ok sizeof_cache \<and> ok (size_request (2 ^ nat s) sizeof_set)")
    case True
    with n have "\<not> ok (size_request E sizeof_line)" by simp
    then have "alloc_sets ok (2 ^ nat s) E 0 [] = Inl AllocError"
      by (intro alloc_sets_refused) simp_all
    with assms True show ?thesis by (simp add: makecache_def)
  next
    case False
    with assms show ?thesis by (auto simp: makecache_def split: if_splits)
  qed
  with n show ?thesis by simp
qed

lemma makecache_inv:
  assumes "makecache ok s E b = Inr c"
  shows "cache_inv s E b c"
proof -
  from makecache_Inr [OF assms] show ?thesis
    by (simp add: cache_inv_def zero_lru_def fresh_lines_def list_all_iff)
qed

lemma lru_loop_zero:
  "list_all (\<lambda>l. lru l = 0) ls \<Longrightarrow> nat E \<le> length ls \<Longrightarrow> k < length ls \<Longrightarrow>
   lru_loop E ls k i = Inr ls"
proof (induction E ls k i rule: lru_loop.induct)
  case (1 E ls k i)
  show ?case
  proof (cases "int i < E")
    case True
    with "1.prems" have i: "i < length ls" by linarith
    with "1.prems" have z: "lru (ls ! i) = 0" "lru (ls ! k) = 0" by (simp_all add: list_all_length)
    from True i "1.prems" z have "lru_loop E ls k i = lru_loop E ls k (i + 1)"
      by (simp add: lru_loop.simps [of E ls k i])
    also from True i "1.prems" z have "\<dots> = Inr ls"
      by (intro "1.IH"(2)) simp_all
    finally show ?thesis .
  next
    case False
    then show ?thesis by (simp add: lru_loop.simps [of E ls k i])
  qed
qed

lemma lru_update_zero:
  "zero_lru (c_E c) ls \<Longrightarrow> k < length ls \<Longrightarrow> lru_update_fun c ls k = Inr ls"
proof -
  assume z: "zero_lru (c_E c) ls" and k: "k < length ls"
  then have "lru_loop (c_E c) ls k 0 = Inr ls" by (simp add: zero_lru_def lru_loop_zero)
  moreover from z k have "(ls ! k)\<lparr>lru := 0\<rparr> = ls ! k" by (simp add: zero_lru_def list_all_length)
  ultimately show ?thesis using k by (simp add: lru_update_fun_def)
qed

section \<open>The loops of access\<close>

lemma hit_scan_Some:
  "hit_scan E ls tg i = Inr (Some k) \<Longrightarrow>
   i \<le> k \<and> int k < E \<and> k < length ls \<and> valid (ls ! k) \<noteq> 0 \<and> tag (ls ! k) = tg \<and>
   (\<forall>j. i \<le> j \<and> j < k \<longrightarrow> valid (ls ! j) = 0 \<or> tag (ls ! j) \<noteq> tg)"
proof (induction E ls tg i rule: hit_scan.induct)
  case (1 E ls tg i)
  from "1.prems" have a: "int i < E" "i < length ls"
    by (auto simp: hit_scan.simps [of E ls tg i] split: if_splits)
  show ?case
  proof (cases "valid (ls ! i) \<noteq> 0 \<and> tag (ls ! i) = tg")
    case True
    with a "1.prems" have "k = i" by (simp add: hit_scan.simps [of E ls tg i])
    with a True show ?thesis by simp
  next
    case False
    with a "1.prems" have r: "hit_scan E ls tg (i + 1) = Inr (Some k)"
      by (simp add: hit_scan.simps [of E ls tg i])
    from a False have "\<not> length ls \<le> i" "\<not> (valid (ls ! i) \<noteq> 0 \<and> tag (ls ! i) = tg)" by auto
    from "1.IH" [OF a(1) this r]
    have ih: "i + 1 \<le> k \<and> int k < E \<and> k < length ls \<and> valid (ls ! k) \<noteq> 0 \<and> tag (ls ! k) = tg \<and>
      (\<forall>j. i + 1 \<le> j \<and> j < k \<longrightarrow> valid (ls ! j) = 0 \<or> tag (ls ! j) \<noteq> tg)" .
    have "valid (ls ! j) = 0 \<or> tag (ls ! j) \<noteq> tg" if "i \<le> j \<and> j < k" for j
    proof (cases "j = i")
      case True
      with False show ?thesis by auto
    next
      case False
      with that have "i + 1 \<le> j \<and> j < k" by simp
      with ih show ?thesis by blast
    qed
    with ih show ?thesis by simp
  qed
qed

lemma hit_scan_None:
  "hit_scan E ls tg i = Inr None \<Longrightarrow> i \<le> j \<Longrightarrow> int j < E \<Longrightarrow>
   valid (ls ! j) = 0 \<or> tag (ls ! j) \<noteq> tg"
proof (induction E ls tg i rule: hit_scan.induct)
  case (1 E ls tg i)
  from "1.prems" have a: "int i < E" by simp
  from "1.prems" a have b: "\<not> length ls \<le> i" "\<not> (valid (ls ! i) \<noteq> 0 \<and> tag (ls ! i) = tg)"
    and r: "hit_scan E ls tg (i + 1) = Inr None"
    by (auto simp: hit_scan.simps [of E ls tg i] split: if_splits)
  show ?case
  proof (cases "j = i")
    case True
    with b show ?thesis by auto
  next
    case False
    with "1.prems" have "i + 1 \<le> j" by simp
    from "1.IH" [OF a b r this "1.prems"(3)] show ?thesis .
  qed
qed

lemma hit_scan_total:
  "nat E \<le> length ls \<Longrightarrow> \<exists>r. hit_scan E ls tg i = Inr r"
proof (induction E ls tg i rule: hit_scan.induct)
  case (1 E ls tg i)
  show ?case
  proof (cases "int i < E")
    case True
    with "1.prems" have "\<not> length ls \<le> i" by linarith
    with True "1.IH" "1.prems" show ?thesis
      by (cases "valid (ls ! i) \<noteq> 0 \<and> tag (ls ! i) = tg") (simp_all add: hit_scan.simps [of E ls tg i])
  next
    case False
    then show ?thesis by (simp add: hit_scan.simps [of E ls tg i])
  qed
qed

lemma empty_scan_Some:
  "empty_scan E ls i = Inr (Some k) \<Longrightarrow>
   i \<le> k \<and> int k < E \<and> k < length ls \<and> valid (ls ! k) = 0 \<and>
   (\<forall>j. i \<le> j \<and> j < k \<longrightarrow> valid (ls ! j) \<noteq> 0)"
proof (induction E ls i rule: empty_scan.induct)
  case (1 E ls i)
  from "1.prems" have a: "int i < E" "i < length ls"
    by (auto simp: empty_scan.simps [of E ls i] split: if_splits)
  show ?case
  proof (cases "valid (ls ! i) = 0")
    case True
    with a "1.prems" have "k = i" by (simp add: empty_scan.simps [of E ls i])
    with a True show ?thesis by simp
  next
    case False
    with a "1.prems" have r: "empty_scan E ls (i + 1) = Inr (Some k)"
      by (simp add: empty_scan.simps [of E ls i])
    from a have "\<not> length ls \<le> i" by auto
    from "1.IH" [OF a(1) this False r]
    have ih: "i + 1 \<le> k \<and> int k < E \<and> k < length ls \<and> valid (ls ! k) = 0 \<and>
      (\<forall>j. i + 1 \<le> j \<and> j < k \<longrightarrow> valid (ls ! j) \<noteq> 0)" .
    have "valid (ls ! j) \<noteq> 0" if "i \<le> j \<and> j < k" for j
    proof (cases "j = i")
      case True
      with False show ?thesis by auto
    next
      case False
      with that have "i + 1 \<le> j \<and> j < k" by simp
      with ih show ?thesis by blast
    qed
    with ih show ?thesis by simp
  qed
qed

lemma empty_scan_None:
  "empty_scan E ls i = Inr None \<Longrightarrow> i \<le> j \<Longrightarrow> int j < E \<Longrightarrow> valid (ls ! j) \<noteq> 0"
proof (induction E ls i rule: empty_scan.induct)
  case (1 E ls i)
  from "1.prems" have a: "int i < E" by simp
  from "1.prems" a have b: "\<not> length ls \<le> i" "valid (ls ! i) \<noteq> 0"
    and r: "empty_scan E ls (i + 1) = Inr None"
    by (auto simp: empty_scan.simps [of E ls i] split: if_splits)
  show ?case
  proof (cases "j = i")
    case True
    with b show ?thesis by auto
  next
    case False
    with "1.prems" have "i + 1 \<le> j" by simp
    from "1.IH" [OF a b r this "1.prems"(3)] show ?thesis .
  qed
qed

lemma empty_scan_total:
  "nat E \<le> length ls \<Longrightarrow> \<exists>r. empty_scan E ls i = Inr r"
proof (induction E ls i rule: empty_scan.induct)
  case (1 E ls i)
  show ?case
  proof (cases "int i < E")
    case True
    with "1.prems" have "\<not> length ls \<le> i" by linarith
    with True "1.IH" "1.prems" show ?thesis
      by (cases "valid (ls ! i) = 0") (simp_all add: empty_scan.simps [of E ls i])
  next
    case False
    then show ?thesis by (simp add: empty_scan.simps [of E ls i])
  qed
qed

lemma find_lru_loop_Inr:
  "find_lru_loop E ls i = Inr r \<Longrightarrow>
   r = 0 \<or> (i \<le> r \<and> int r < E \<and> r < length ls \<and> lru (ls ! r) = E - 1)"
proof (induction E ls i rule: find_lru_loop.induct)
  case (1 E ls i)
  show ?case
  proof (cases "int i < E")
    case True
    with "1.prems" have b: "\<not> length ls \<le> i"
      by (auto simp: find_lru_loop.simps [of E ls i] split: if_splits)
    show ?thesis
    proof (cases "lru (ls ! i) = E - 1")
      case t: True
      with True b "1.prems" have "r = i" by (simp add: find_lru_loop.simps [of E ls i])
      with True b t show ?thesis by simp
    next
      case f: False
      with True b "1.prems" have "find_lru_loop E ls (i + 1) = Inr r"
        by (simp add: find_lru_loop.simps [of E ls i])
      from "1.IH" [OF True b f this] show ?thesis by auto
    qed
  next
    case False
    with "1.prems" show ?thesis by (simp add: find_lru_loop.simps [of E ls i])
  qed
qed

lemma find_lru_loop_first:
  "find_lru_loop E ls i = Inr r \<Longrightarrow> i \<le> j \<Longrightarrow> j < r \<Longrightarrow> lru (ls ! j) \<noteq> E - 1"
proof (induction E ls i rule: find_lru_loop.induct)
  case (1 E ls i)
  show ?case
  proof (cases "int i < E")
    case True
    with "1.prems" have b: "\<not> length ls \<le> i"
      by (auto simp: find_lru_loop.simps [of E ls i] split: if_splits)
    show ?thesis
    proof (cases "lru (ls ! i) = E - 1")
      case t: True
      with True b "1.prems" have "r = i" by (simp add: find_lru_loop.simps [of E ls i])
      with "1.prems" show ?thesis by simp
    next
      case f: False
      with True b "1.prems" have r: "find_lru_loop E ls (i + 1) = Inr r"
        by (simp add: find_lru_loop.simps [of E ls i])
      show ?thesis
      proof (cases "j = i")
        case True
        with f show ?thesis by simp
      next
        case False
        with "1.prems" have "i + 1 \<le> j" by simp
        from "1.IH" [OF True b f r this "1.prems"(3)] show ?thesis .
      qed
    qed
  next
    case False
    with "1.prems" show ?thesis by (simp add: find_lru_loop.simps [of E ls i])
  qed
qed

lemma find_lru_loop_total:
  "nat E \<le> length ls \<Longrightarrow> \<exists>r. find_lru_loop E ls i = Inr r"
proof (induction E ls i rule: find_lru_loop.induct)
  case (1 E ls i)
  show ?case
  proof (cases "int i < E")
    case True
    with "1.prems" have "\<not> length ls \<le> i" by linarith
    with True "1.IH" "1.prems" show ?thesis
      by (cases "lru (ls ! i) = E - 1") (simp_all add: find_lru_loop.simps [of E ls i])
  next
    case False
    then show ?thesis by (simp add: find_lru_loop.simps [of E ls i])
  qed
qed

lemma find_lru_zero:
  assumes "zero_lru (c_E c) ls"
  shows "find_lru c ls = Inr 0"
proof -
  from assms have len: "nat (c_E c) \<le> length ls" by (simp add: zero_lru_def)
  from find_lru_loop_total [OF len, of 0] obtain r where r: "find_lru_loop (c_E c) ls 0 = Inr r" by blast
  have "r = 0"
  proof (rule ccontr)
    assume n: "r \<noteq> 0"
    with find_lru_loop_Inr [OF r] have p: "int r < c_E c" "r < length ls" "lru (ls ! r) = c_E c - 1" by auto
    with assms have "lru (ls ! r) = 0" by (simp add: zero_lru_def list_all_length)
    with p n show False by simp
  qed
  with r show ?thesis by (simp add: find_lru_def)
qed

lemma set_index_bound:
  "set_index c a < 2 ^ nat (c_s c)"
proof -
  have m: "push_bit (nat (c_s c)) 1 - 1 = (mask (nat (c_s c)) :: 64 word)"
    by (simp add: mask_eq_exp_minus_1 push_bit_of_1)
  have "uint (drop_bit (nat (c_b c)) a AND mask (nat (c_s c))) < 2 ^ nat (c_s c)"
    by (rule and_mask_lt_2p)
  then have "unat (drop_bit (nat (c_b c)) a AND mask (nat (c_s c))) < 2 ^ nat (c_s c)"
    by (metis nat_less_numeral_power_cancel_iff unat_eq_nat_uint)
  then show ?thesis unfolding set_index_def m .
qed

section \<open>One access on a reachable cache\<close>

lemma zero_lru_update:
  "zero_lru E ls \<Longrightarrow> lru l = 0 \<Longrightarrow> zero_lru E (ls[i := l])"
  using set_update_subset_insert [of ls i l] by (auto simp: zero_lru_def list_all_iff)

lemma cache_inv_shifts:
  "cache_inv s E b c \<Longrightarrow> 0 \<le> b \<Longrightarrow> s + b < 64 \<Longrightarrow> shifts_defined c"
  by (auto simp: cache_inv_def shifts_defined_def)

lemma cache_inv_index:
  "cache_inv s E b c \<Longrightarrow> set_index c a < length (sets c)"
  using set_index_bound [of c a] by (simp add: cache_inv_def)

lemma cache_inv_set:
  "cache_inv s E b c \<Longrightarrow> i < length (sets c) \<Longrightarrow> zero_lru E (sets c ! i)"
  by (simp add: cache_inv_def list_all_length)

lemma cache_inv_update:
  "cache_inv s E b c \<Longrightarrow> zero_lru E ls \<Longrightarrow> cache_inv s E b (c\<lparr>sets := (sets c)[i := ls]\<rparr>)"
  using set_update_subset_insert [of "sets c" i ls] by (auto simp: cache_inv_def list_all_iff)

lemma touch_zero:
  "zero_lru (c_E c) ls \<Longrightarrow> k < length ls \<Longrightarrow>
   touch c cache_set ls k out n = Inr (out, c\<lparr>sets := (sets c)[cache_set := ls]\<rparr>, n)"
  by (simp add: touch_def lru_update_zero)

lemma access_cache_cases:
  assumes inv: "cache_inv s E b c" and par: "0 \<le> b" "s + b < 64" and E1: "1 \<le> E"
  obtains
    (hit) i where "hit_scan E (sets c ! set_index c a) (block_tag c a) 0 = Inr (Some i)"
      "access_cache c a n =
         (if INT_MAX \<le> hit n then Inl SignedOverflow
          else Inr (Hit, c, n\<lparr>hit := hit n + 1\<rparr>))"
  | (fill) i where "hit_scan E (sets c ! set_index c a) (block_tag c a) 0 = Inr None"
      "empty_scan E (sets c ! set_index c a) 0 = Inr (Some i)"
      "access_cache c a n =
         (if INT_MAX \<le> miss n then Inl SignedOverflow
          else Inr (MissFill,
              c\<lparr>sets := (sets c)[set_index c a :=
                   (sets c ! set_index c a)[i := (sets c ! set_index c a ! i)\<lparr>valid := 1, tag := block_tag c a\<rparr>]]\<rparr>,
              n\<lparr>miss := miss n + 1\<rparr>))"
  | (evict) "hit_scan E (sets c ! set_index c a) (block_tag c a) 0 = Inr None"
      "empty_scan E (sets c ! set_index c a) 0 = Inr None"
      "0 < length (sets c ! set_index c a)"
      "find_lru c (sets c ! set_index c a) = Inr 0"
      "access_cache c a n =
         (if INT_MAX \<le> miss n \<or> INT_MAX \<le> evictions n then Inl SignedOverflow
          else Inr (MissEvict,
              c\<lparr>sets := (sets c)[set_index c a :=
                   (sets c ! set_index c a)[0 := (sets c ! set_index c a ! 0)\<lparr>tag := block_tag c a\<rparr>]]\<rparr>,
              n\<lparr>miss := miss n + 1, evictions := evictions n + 1\<rparr>))"
proof -
  define idx where "idx = set_index c a"
  define tg where "tg = block_tag c a"
  define ls where "ls = sets c ! idx"
  from inv have E: "c_E c = E" by (simp add: cache_inv_def)
  have sh: "shifts_defined c" using inv par by (rule cache_inv_shifts)
  have idx: "idx < length (sets c)" unfolding idx_def using inv by (rule cache_inv_index)
  have z: "zero_lru E ls" unfolding ls_def using inv idx by (rule cache_inv_set)
  then have len: "length ls = nat E" by (simp add: zero_lru_def)
  have acc: "access_cache c a n =
    (case hit_scan E ls tg 0 of
       Inl e \<Rightarrow> Inl e
     | Inr (Some i) \<Rightarrow>
         if INT_MAX \<le> hit n then Inl SignedOverflow
         else touch c idx ls i Hit (n\<lparr>hit := hit n + 1\<rparr>)
     | Inr None \<Rightarrow>
        (case empty_scan E ls 0 of
           Inl e \<Rightarrow> Inl e
         | Inr (Some i) \<Rightarrow>
             if INT_MAX \<le> miss n then Inl SignedOverflow
             else touch c idx (ls[i := (ls ! i)\<lparr>valid := 1, tag := tg\<rparr>]) i MissFill (n\<lparr>miss := miss n + 1\<rparr>)
         | Inr None \<Rightarrow>
            (case find_lru c ls of
               Inl e \<Rightarrow> Inl e
             | Inr lru_idx \<Rightarrow>
                 if INT_MAX \<le> miss n \<or> INT_MAX \<le> evictions n then Inl SignedOverflow
                 else if length ls \<le> lru_idx then Inl OutOfBounds
                 else touch c idx (ls[lru_idx := (ls ! lru_idx)\<lparr>tag := tg\<rparr>]) lru_idx MissEvict
                        (n\<lparr>miss := miss n + 1, evictions := evictions n + 1\<rparr>))))"
    unfolding idx_def tg_def ls_def E [symmetric] access_cache_def Let_def
    using sh idx [unfolded idx_def] by simp
  from hit_scan_total [of E ls tg 0] len obtain r where r: "hit_scan E ls tg 0 = Inr r" by auto
  show thesis
  proof (cases r)
    case (Some i)
    with r have h: "hit_scan E ls tg 0 = Inr (Some i)" by simp
    from hit_scan_Some [OF h] have i: "i < length ls" by simp
    have "touch c idx ls i Hit (n\<lparr>hit := hit n + 1\<rparr>) = Inr (Hit, c\<lparr>sets := (sets c)[idx := ls]\<rparr>, n\<lparr>hit := hit n + 1\<rparr>)"
      using z i by (intro touch_zero) (simp_all add: E)
    moreover have "c\<lparr>sets := (sets c)[idx := ls]\<rparr> = c" by (simp add: ls_def)
    ultimately have "access_cache c a n =
        (if INT_MAX \<le> hit n then Inl SignedOverflow else Inr (Hit, c, n\<lparr>hit := hit n + 1\<rparr>))"
      using acc h by (simp cong: if_cong)
    with h show thesis unfolding ls_def idx_def tg_def by (rule hit)
  next
    case None
    with r have h: "hit_scan E ls tg 0 = Inr None" by simp
    from empty_scan_total [of E ls 0] len obtain q where q: "empty_scan E ls 0 = Inr q" by auto
    show thesis
    proof (cases q)
      case (Some i)
      with q have e: "empty_scan E ls 0 = Inr (Some i)" by simp
      from empty_scan_Some [OF e] have i: "i < length ls" by simp
      let ?ls = "ls[i := (ls ! i)\<lparr>valid := 1, tag := tg\<rparr>]"
      from z i have "lru ((ls ! i)\<lparr>valid := 1, tag := tg\<rparr>) = 0" by (simp add: zero_lru_def list_all_length)
      with z have "zero_lru E ?ls" by (rule zero_lru_update)
      then have "touch c idx ?ls i MissFill (n\<lparr>miss := miss n + 1\<rparr>) =
          Inr (MissFill, c\<lparr>sets := (sets c)[idx := ?ls]\<rparr>, n\<lparr>miss := miss n + 1\<rparr>)"
        using i by (intro touch_zero) (simp_all add: E)
      with acc h e have "access_cache c a n =
          (if INT_MAX \<le> miss n then Inl SignedOverflow
           else Inr (MissFill, c\<lparr>sets := (sets c)[idx := ?ls]\<rparr>, n\<lparr>miss := miss n + 1\<rparr>))"
        by (simp cong: if_cong)
      with h e show thesis unfolding ls_def idx_def tg_def by (rule fill)
    next
      case None
      with q have e: "empty_scan E ls 0 = Inr None" by simp
      have f: "find_lru c ls = Inr 0" using z by (intro find_lru_zero) (simp add: E)
      have pos: "0 < length ls" using len E1 by simp
      let ?ls = "ls[0 := (ls ! 0)\<lparr>tag := tg\<rparr>]"
      from z pos have "lru ((ls ! 0)\<lparr>tag := tg\<rparr>) = 0" by (simp add: zero_lru_def list_all_length)
      with z have "zero_lru E ?ls" by (rule zero_lru_update)
      then have "touch c idx ?ls 0 MissEvict (n\<lparr>miss := miss n + 1, evictions := evictions n + 1\<rparr>) =
          Inr (MissEvict, c\<lparr>sets := (sets c)[idx := ?ls]\<rparr>, n\<lparr>miss := miss n + 1, evictions := evictions n + 1\<rparr>)"
        using pos by (intro touch_zero) (simp_all add: E)
      with acc h e f pos have "access_cache c a n =
          (if INT_MAX \<le> miss n \<or> INT_MAX \<le> evictions n then Inl SignedOverflow
           else Inr (MissEvict, c\<lparr>sets := (sets c)[idx := ?ls]\<rparr>,
                     n\<lparr>miss := miss n + 1, evictions := evictions n + 1\<rparr>))"
        by (simp cong: if_cong)
      with h e pos f show thesis unfolding ls_def idx_def tg_def by (rule evict)
    qed
  qed
qed

lemma access_cache_Inr_shifts:
  "access_cache c a n = Inr r \<Longrightarrow> shifts_defined c"
  by (simp add: access_cache_def split: if_splits)

lemma access_cache_Inr_E:
  assumes inv: "cache_inv s E b c" and r: "access_cache c a n = Inr r"
  shows "1 \<le> E"
proof (rule ccontr)
  assume "\<not> 1 \<le> E"
  then have E0: "E \<le> 0" by simp
  from inv have E: "c_E c = E" by (simp add: cache_inv_def)
  have idx: "set_index c a < length (sets c)" using inv by (rule cache_inv_index)
  have "zero_lru E (sets c ! set_index c a)" using inv idx by (rule cache_inv_set)
  with E0 have nil: "sets c ! set_index c a = []" by (simp add: zero_lru_def)
  from E0 have "hit_scan E [] (block_tag c a) 0 = Inr None" "empty_scan E [] 0 = Inr None"
    "find_lru_loop E [] 0 = Inr 0"
    by (simp_all add: hit_scan.simps [of E] empty_scan.simps [of E] find_lru_loop.simps [of E])
  with r nil E show False
    by (simp add: access_cache_def Let_def find_lru_def split: if_splits)
qed

lemma access_cache_Inr_cases:
  assumes inv: "cache_inv s E b c" and r: "access_cache c a n = Inr (out, c', n')"
  obtains
    (hit) i where "hit_scan E (sets c ! set_index c a) (block_tag c a) 0 = Inr (Some i)"
      "out = Hit" "c' = c" "n' = n\<lparr>hit := hit n + 1\<rparr>" "hit n < INT_MAX"
  | (fill) i where "hit_scan E (sets c ! set_index c a) (block_tag c a) 0 = Inr None"
      "empty_scan E (sets c ! set_index c a) 0 = Inr (Some i)"
      "out = MissFill"
      "c' = c\<lparr>sets := (sets c)[set_index c a :=
                (sets c ! set_index c a)[i := (sets c ! set_index c a ! i)\<lparr>valid := 1, tag := block_tag c a\<rparr>]]\<rparr>"
      "n' = n\<lparr>miss := miss n + 1\<rparr>" "miss n < INT_MAX"
  | (evict) "hit_scan E (sets c ! set_index c a) (block_tag c a) 0 = Inr None"
      "empty_scan E (sets c ! set_index c a) 0 = Inr None"
      "0 < length (sets c ! set_index c a)"
      "find_lru c (sets c ! set_index c a) = Inr 0"
      "out = MissEvict"
      "c' = c\<lparr>sets := (sets c)[set_index c a :=
                (sets c ! set_index c a)[0 := (sets c ! set_index c a ! 0)\<lparr>tag := block_tag c a\<rparr>]]\<rparr>"
      "n' = n\<lparr>miss := miss n + 1, evictions := evictions n + 1\<rparr>"
      "miss n < INT_MAX" "evictions n < INT_MAX"
proof -
  from inv have "c_s c = s" "c_b c = b" by (simp_all add: cache_inv_def)
  with access_cache_Inr_shifts [OF r] have par: "0 \<le> b" "s + b < 64"
    by (simp_all add: shifts_defined_def)
  have E1: "1 \<le> E" using inv r by (rule access_cache_Inr_E)
  from inv par E1 show thesis
  proof (cases rule: access_cache_cases [where a = a and n = n])
    case (hit i)
    from hit(2) r have "out = Hit" "c' = c" "n' = n\<lparr>hit := hit n + 1\<rparr>" "hit n < INT_MAX"
      by (auto split: if_splits)
    with hit(1) show thesis by (rule that(1))
  next
    case (fill i)
    from fill(3) r have "out = MissFill"
      "c' = c\<lparr>sets := (sets c)[set_index c a :=
                (sets c ! set_index c a)[i := (sets c ! set_index c a ! i)\<lparr>valid := 1, tag := block_tag c a\<rparr>]]\<rparr>"
      "n' = n\<lparr>miss := miss n + 1\<rparr>" "miss n < INT_MAX"
      by (auto split: if_splits)
    with fill(1,2) show thesis by (rule that(2))
  next
    case evict
    from evict(5) r have "out = MissEvict"
      "c' = c\<lparr>sets := (sets c)[set_index c a :=
                (sets c ! set_index c a)[0 := (sets c ! set_index c a ! 0)\<lparr>tag := block_tag c a\<rparr>]]\<rparr>"
      "n' = n\<lparr>miss := miss n + 1, evictions := evictions n + 1\<rparr>"
      "miss n < INT_MAX" "evictions n < INT_MAX"
      by (auto split: if_splits)
    with evict(1-4) show thesis by (rule that(3))
  qed
qed

lemma access_cache_inv:
  assumes inv: "cache_inv s E b c" and r: "access_cache c a n = Inr (out, c', n')"
  shows "cache_inv s E b c'"
proof -
  define ls where "ls = sets c ! set_index c a"
  have z: "zero_lru E ls"
    unfolding ls_def using inv cache_inv_index [OF inv] by (rule cache_inv_set)
  from inv r show ?thesis
  proof (cases rule: access_cache_Inr_cases)
    case (hit i)
    with inv show ?thesis by simp
  next
    case (fill i)
    from empty_scan_Some [OF fill(2)] have i: "i < length ls" by (simp add: ls_def)
    with z have "lru ((ls ! i)\<lparr>valid := 1, tag := block_tag c a\<rparr>) = 0"
      by (simp add: zero_lru_def list_all_length)
    with z have "zero_lru E (ls[i := (ls ! i)\<lparr>valid := 1, tag := block_tag c a\<rparr>])"
      by (rule zero_lru_update)
    from cache_inv_update [OF inv this] fill(4) show ?thesis by (simp add: ls_def)
  next
    case evict
    with z have "lru ((ls ! 0)\<lparr>tag := block_tag c a\<rparr>) = 0"
      by (simp add: zero_lru_def list_all_length ls_def)
    with z have "zero_lru E (ls[0 := (ls ! 0)\<lparr>tag := block_tag c a\<rparr>])" by (rule zero_lru_update)
    from cache_inv_update [OF inv this] evict(6) show ?thesis by (simp add: ls_def)
  qed
qed

lemma access_cache_total:
  assumes "cache_inv s E b c" "0 \<le> b" "s + b < 64" "1 \<le> E"
    and "hit n < INT_MAX" "miss n < INT_MAX" "evictions n < INT_MAX"
  shows "\<exists>out c' n'. access_cache c a n = Inr (out, c', n')"
  using assms(1-4) by (cases rule: access_cache_cases [where a = a and n = n]) (use assms(5-7) in auto)

lemma runsim_inv:
  "cache_inv s E b c \<Longrightarrow> runsim c evs n = Inr (c', n') \<Longrightarrow> cache_inv s E b c'"
proof (induction evs arbitrary: c n)
  case Nil
  then show ?case by simp
next
  case (Cons ev evs)
  obtain operation address sz where ev: "ev = (operation, address, sz)" by (cases ev)
  note inv = Cons.prems(1)
  consider (one) "operation = CHR ''L'' \<or> operation = CHR ''S''"
    | (two) "operation = CHR ''M''"
    | (skip) "operation \<noteq> CHR ''L''" "operation \<noteq> CHR ''S''" "operation \<noteq> CHR ''M''"
    by blast
  then show ?case
  proof cases
    case one
    with Cons.prems(2) obtain out c1 n1
      where a1: "access_cache c address n = Inr (out, c1, n1)"
        and r: "runsim c1 evs n1 = Inr (c', n')"
      by (auto simp: ev split: sum.splits)
    from access_cache_inv [OF inv a1] have "cache_inv s E b c1" .
    from Cons.IH [OF this r] show ?thesis .
  next
    case two
    with Cons.prems(2) obtain out c1 n1 out2 c2 n2
      where a1: "access_cache c address n = Inr (out, c1, n1)"
        and a2: "access_cache c1 address n1 = Inr (out2, c2, n2)"
        and r: "runsim c2 evs n2 = Inr (c', n')"
      by (auto simp: ev split: sum.splits)
    from access_cache_inv [OF inv a1] have "cache_inv s E b c1" .
    from access_cache_inv [OF this a2] have "cache_inv s E b c2" .
    from Cons.IH [OF this r] show ?thesis .
  next
    case skip
    with Cons.prems(2) have "runsim c evs n = Inr (c', n')" by (simp add: ev)
    from Cons.IH [OF inv this] show ?thesis .
  qed
qed

lemma reached_inv:
  assumes "makecache ok s E b = Inr c0" "runsim c0 evs n0 = Inr (c, n)"
  shows "cache_inv s E b c"
  using makecache_inv [OF assms(1)] assms(2) by (rule runsim_inv)

lemma access_cache_same_block:
  assumes "set_index c a' = set_index c a" and "block_tag c a' = block_tag c a"
  shows "access_cache c a' m = access_cache c a m"
  unfolding access_cache_def assms ..

lemma block_tag_drop:
  assumes "0 \<le> c_s c" and "0 \<le> c_b c"
  shows "block_tag c a = drop_bit (nat (c_s c)) (drop_bit (nat (c_b c)) a)"
proof -
  from assms have "nat (c_s c + c_b c) = nat (c_s c) + nat (c_b c)" by simp
  then show ?thesis by (simp add: block_tag_def drop_bit_drop_bit add.commute)
qed

lemma access_cache_params:
  assumes "cache_inv s E b c" and "access_cache c a m = Inr (out, c', m')"
  shows "set_index c' x = set_index c x \<and> block_tag c' x = block_tag c x"
proof -
  from access_cache_inv [OF assms] assms(1) have "c_s c' = c_s c" "c_b c' = c_b c"
    by (simp_all add: cache_inv_def)
  then show ?thesis by (simp add: set_index_def block_tag_def)
qed

lemma access_cache_held:
  assumes inv: "cache_inv s E b c" and r: "access_cache c a m = Inr (out, c', m')"
  shows "\<exists>k. int k < E \<and> k < length (sets c' ! set_index c a) \<and>
             valid (sets c' ! set_index c a ! k) \<noteq> 0 \<and>
             tag (sets c' ! set_index c a ! k) = block_tag c a"
proof -
  define idx where "idx = set_index c a"
  define ls where "ls = sets c ! idx"
  define tg where "tg = block_tag c a"
  have idx: "idx < length (sets c)" unfolding idx_def using inv by (rule cache_inv_index)
  have z: "zero_lru E ls" unfolding ls_def using inv idx by (rule cache_inv_set)
  then have len: "length ls = nat E" by (simp add: zero_lru_def)
  from inv r have "\<exists>k. int k < E \<and> k < length (sets c' ! idx) \<and>
      valid (sets c' ! idx ! k) \<noteq> 0 \<and> tag (sets c' ! idx ! k) = tg"
  proof (cases rule: access_cache_Inr_cases)
    case (hit i)
    with hit_scan_Some [OF hit(1)] show ?thesis unfolding idx_def tg_def by auto
  next
    case (fill i)
    from empty_scan_Some [OF fill(2)] have i: "i < length ls" "int i < E"
      by (simp_all add: ls_def idx_def)
    from fill(4)
    have "sets c' = (sets c)[idx := ls[i := (ls ! i)\<lparr>valid := 1, tag := tg\<rparr>]]"
      by (simp add: ls_def idx_def tg_def)
    with idx i show ?thesis by (intro exI [where x = i]) simp
  next
    case evict
    from evict(3) have pos: "0 < length ls" by (simp add: ls_def idx_def)
    from len pos have E0: "int 0 < E" by simp
    from empty_scan_None [OF evict(2) _ E0] have v: "valid (ls ! 0) \<noteq> 0"
      by (simp add: ls_def idx_def)
    from evict(6)
    have "sets c' = (sets c)[idx := ls[0 := (ls ! 0)\<lparr>tag := tg\<rparr>]]"
      by (simp add: ls_def idx_def tg_def)
    with idx pos v E0 show ?thesis by (intro exI [where x = 0]) simp
  qed
  then show ?thesis unfolding idx_def tg_def .
qed

lemma access_cache_again:
  assumes inv: "cache_inv s E b c" and r: "access_cache c a m = Inr (out, c', m')"
  shows "access_cache c' a m2 =
           (if INT_MAX \<le> hit m2 then Inl SignedOverflow
            else Inr (Hit, c', m2\<lparr>hit := hit m2 + 1\<rparr>))"
proof -
  have inv': "cache_inv s E b c'" using inv r by (rule access_cache_inv)
  have same: "set_index c' a = set_index c a" "block_tag c' a = block_tag c a"
    using access_cache_params [OF inv r, of a] by simp_all
  from inv have "c_s c = s" "c_b c = b" by (simp_all add: cache_inv_def)
  with access_cache_Inr_shifts [OF r] have par: "0 \<le> b" "s + b < 64"
    by (simp_all add: shifts_defined_def)
  have E1: "1 \<le> E" using inv r by (rule access_cache_Inr_E)
  from access_cache_held [OF inv r] obtain k where k: "int k < E"
    "valid (sets c' ! set_index c a ! k) \<noteq> 0" "tag (sets c' ! set_index c a ! k) = block_tag c a"
    by blast
  from inv' par E1 show ?thesis
  proof (cases rule: access_cache_cases [where a = a and n = m2])
    case (hit i)
    then show ?thesis by simp
  next
    case (fill i)
    from hit_scan_None [OF fill(1) _ k(1)] k(2,3) show ?thesis by (simp add: same)
  next
    case evict
    from hit_scan_None [OF evict(1) _ k(1)] k(2,3) show ?thesis by (simp add: same)
  qed
qed

section \<open>What a hit leaves unchanged\<close>

lemma lru_loop_frame:
  "lru_loop E ls k i = Inr ls' \<Longrightarrow>
   length ls' = length ls \<and> map valid ls' = map valid ls \<and> map tag ls' = map tag ls"
proof (induction E ls k i arbitrary: ls' rule: lru_loop.induct)
  case (1 E ls k i)
  show ?case
  proof (cases "int i < E")
    case True
    with "1.prems" have b: "\<not> (length ls \<le> i \<or> length ls \<le> k)"
      by (auto simp: lru_loop.simps [of E ls k i] split: if_splits)
    show ?thesis
    proof (cases "valid (ls ! i) \<noteq> 0 \<and> lru (ls ! i) < lru (ls ! k)")
      case t: True
      let ?ls = "ls[i := (ls ! i)\<lparr>lru := lru (ls ! i) + 1\<rparr>]"
      from True b t "1.prems" have "lru_loop E ?ls k (i + 1) = Inr ls'"
        by (simp add: lru_loop.simps [of E ls k i])
      from "1.IH"(1) [OF True b t this]
      have "length ls' = length ?ls \<and> map valid ls' = map valid ?ls \<and> map tag ls' = map tag ?ls" .
      moreover from b have "map valid ?ls = map valid ls" "map tag ?ls = map tag ls"
        by (simp_all add: map_update list_update_same_conv)
      ultimately show ?thesis by simp
    next
      case f: False
      with True b "1.prems" have "lru_loop E ls k (i + 1) = Inr ls'"
        by (auto simp: lru_loop.simps [of E ls k i])
      from "1.IH"(2) [OF True b f this] show ?thesis .
    qed
  next
    case False
    with "1.prems" show ?thesis by (simp add: lru_loop.simps [of E ls k i])
  qed
qed

lemma lru_update_frame:
  assumes "lru_update_fun c ls k = Inr ls'"
  shows "length ls' = length ls \<and> map valid ls' = map valid ls \<and> map tag ls' = map tag ls"
proof -
  from assms obtain l where l: "lru_loop (c_E c) ls k 0 = Inr l" and k: "k < length l"
    and ls': "ls' = l[k := (l ! k)\<lparr>lru := 0\<rparr>]"
    by (auto simp: lru_update_fun_def split: sum.splits if_splits)
  from k have "map valid ls' = map valid l" "map tag ls' = map tag l" "length ls' = length l"
    by (simp_all add: ls' map_update list_update_same_conv)
  with lru_loop_frame [OF l] show ?thesis by simp
qed

lemma touch_Inr:
  assumes "touch c cache_set ls k out m = Inr (out', c', m')"
  shows "out' = out \<and> m' = m \<and>
         (\<exists>ls'. lru_update_fun c ls k = Inr ls' \<and> c' = c\<lparr>sets := (sets c)[cache_set := ls']\<rparr>)"
  using assms by (auto simp: touch_def split: sum.splits)

lemma access_cache_Inr_struct:
  assumes r: "access_cache c a m = Inr (out, c', m')"
  obtains
    (hit) i where "hit_scan (c_E c) (sets c ! set_index c a) (block_tag c a) 0 = Inr (Some i)"
      "hit m < INT_MAX"
      "touch c (set_index c a) (sets c ! set_index c a) i Hit (m\<lparr>hit := hit m + 1\<rparr>) = Inr (out, c', m')"
  | (fill) i where "hit_scan (c_E c) (sets c ! set_index c a) (block_tag c a) 0 = Inr None"
      "empty_scan (c_E c) (sets c ! set_index c a) 0 = Inr (Some i)"
      "miss m < INT_MAX"
      "touch c (set_index c a)
         ((sets c ! set_index c a)[i := (sets c ! set_index c a ! i)\<lparr>valid := 1, tag := block_tag c a\<rparr>])
         i MissFill (m\<lparr>miss := miss m + 1\<rparr>) = Inr (out, c', m')"
  | (evict) j where "hit_scan (c_E c) (sets c ! set_index c a) (block_tag c a) 0 = Inr None"
      "empty_scan (c_E c) (sets c ! set_index c a) 0 = Inr None"
      "find_lru c (sets c ! set_index c a) = Inr j"
      "j < length (sets c ! set_index c a)"
      "miss m < INT_MAX" "evictions m < INT_MAX"
      "touch c (set_index c a)
         ((sets c ! set_index c a)[j := (sets c ! set_index c a ! j)\<lparr>tag := block_tag c a\<rparr>])
         j MissEvict (m\<lparr>miss := miss m + 1, evictions := evictions m + 1\<rparr>) = Inr (out, c', m')"
proof -
  from r have sh: "shifts_defined c" and idx: "\<not> length (sets c) \<le> set_index c a"
    by (auto simp: access_cache_def Let_def split: if_splits)
  define ls where "ls = sets c ! set_index c a"
  define tg where "tg = block_tag c a"
  note acc = r [unfolded access_cache_def Let_def if_P [OF sh] if_not_P [OF idx],
      folded ls_def tg_def]
  note that' = that [folded ls_def tg_def]
  show thesis
  proof (cases "hit_scan (c_E c) ls tg 0")
    case (Inl e)
    with acc show ?thesis by simp
  next
    case (Inr q)
    show ?thesis
    proof (cases q)
      case (Some i)
      with Inr acc have "hit m < INT_MAX"
        "touch c (set_index c a) ls i Hit (m\<lparr>hit := hit m + 1\<rparr>) = Inr (out, c', m')"
        by (simp_all split: if_splits)
      with Inr Some show ?thesis by (intro that'(1)) simp_all
    next
      case None
      show ?thesis
      proof (cases "empty_scan (c_E c) ls 0")
        case e: (Inl e)
        with Inr None acc show ?thesis by simp
      next
        case q: (Inr q)
        show ?thesis
        proof (cases q)
          case s: (Some i)
          with Inr None q acc have "miss m < INT_MAX"
            "touch c (set_index c a) (ls[i := (ls ! i)\<lparr>valid := 1, tag := tg\<rparr>]) i MissFill
               (m\<lparr>miss := miss m + 1\<rparr>) = Inr (out, c', m')"
            by (simp_all split: if_splits)
          with Inr None q s show ?thesis by (intro that'(2)) simp_all
        next
          case n: None
          show ?thesis
          proof (cases "find_lru c ls")
            case f: (Inl e)
            with Inr None q n acc show ?thesis by simp
          next
            case f: (Inr j)
            with Inr None q n acc have "j < length ls" "miss m < INT_MAX" "evictions m < INT_MAX"
              "touch c (set_index c a) (ls[j := (ls ! j)\<lparr>tag := tg\<rparr>]) j MissEvict
                 (m\<lparr>miss := miss m + 1, evictions := evictions m + 1\<rparr>) = Inr (out, c', m')"
              by (simp_all split: if_splits)
            with Inr None q n f show ?thesis by (intro that'(3)) simp_all
          qed
        qed
      qed
    qed
  qed
qed

lemma access_cache_Inr_index:
  "access_cache c a m = Inr r \<Longrightarrow> set_index c a < length (sets c)"
  by (auto simp: access_cache_def Let_def split: if_splits)

lemma access_cache_Hit:
  assumes "access_cache c a m = Inr (Hit, c', m')"
  shows "set_index c a < length (sets c) \<and> m' = m\<lparr>hit := hit m + 1\<rparr> \<and>
         (\<exists>i ls'. lru_update_fun c (sets c ! set_index c a) i = Inr ls' \<and>
                   c' = c\<lparr>sets := (sets c)[set_index c a := ls']\<rparr>)"
  using assms
proof (cases rule: access_cache_Inr_struct)
  case (hit i)
  from touch_Inr [OF hit(3)] access_cache_Inr_index [OF assms] show ?thesis by auto
next
  case (fill i)
  from touch_Inr [OF fill(4)] show ?thesis by simp
next
  case (evict j)
  from touch_Inr [OF evict(7)] show ?thesis by simp
qed

lemma access_cache_MissEvict:
  assumes "access_cache c a m = Inr (MissEvict, c', m')"
  shows "\<exists>j ls'. hit_scan (c_E c) (sets c ! set_index c a) (block_tag c a) 0 = Inr None \<and>
           empty_scan (c_E c) (sets c ! set_index c a) 0 = Inr None \<and>
           find_lru c (sets c ! set_index c a) = Inr j \<and>
           j < length (sets c ! set_index c a) \<and>
           lru_update_fun c
             ((sets c ! set_index c a)[j := (sets c ! set_index c a ! j)\<lparr>tag := block_tag c a\<rparr>]) j = Inr ls' \<and>
           c' = c\<lparr>sets := (sets c)[set_index c a := ls']\<rparr> \<and>
           m' = m\<lparr>miss := miss m + 1, evictions := evictions m + 1\<rparr>"
  using assms
proof (cases rule: access_cache_Inr_struct)
  case (hit i)
  from touch_Inr [OF hit(3)] show ?thesis by simp
next
  case (fill i)
  from touch_Inr [OF fill(4)] show ?thesis by simp
next
  case (evict j)
  from touch_Inr [OF evict(7)] evict(1-4) show ?thesis by auto
qed

section \<open>Runs of the examples\<close>

lemmas access_eval = access_cache_def shifts_defined_def set_index_def block_tag_def touch_def
  lru_update_fun_def find_lru_def hit_scan.simps empty_scan.simps lru_loop.simps find_lru_loop.simps
  Let_def INT_MAX_def

lemma ex_make: "makecache unlimited 1 2 1 = Inr ex_fresh"
  by (simp add: makecache_def alloc_sets.simps fresh_lines_def unlimited_def ex_fresh_def
      eval_nat_numeral)

lemma ex_main: "main_init unlimited 0 False 1 2 1 False = Inr ex_fresh"
  by (simp add: main_init_def ex_make)

lemma ex_run1:
  "runsim ex_fresh [(CHR ''L'', 0, 1)] zero_counts =
   Inr (ex_one, \<lparr>hit = 0, miss = 1, evictions = 0\<rparr>)"
  by (simp add: access_eval ex_fresh_def ex_one_def zero_counts_def)

lemma ex_run2:
  "runsim ex_fresh [(CHR ''L'', 0, 1), (CHR ''L'', 4, 1)] zero_counts =
   Inr (ex_full, \<lparr>hit = 0, miss = 2, evictions = 0\<rparr>)"
  by (simp add: access_eval ex_fresh_def ex_full_def zero_counts_def)

lemma ex_run4:
  "runsim ex_fresh [(CHR ''L'', 0, 1), (CHR ''L'', 4, 1), (CHR ''L'', 0, 1), (CHR ''L'', 8, 1)]
     zero_counts =
   Inr (ex_evicted, \<lparr>hit = 1, miss = 3, evictions = 1\<rparr>)"
  by (simp add: access_eval ex_fresh_def ex_evicted_def zero_counts_def)

lemma ex_hit:
  "access_cache ex_full 0 zero_counts = Inr (Hit, ex_full, \<lparr>hit = 1, miss = 0, evictions = 0\<rparr>)"
  by (simp add: access_eval ex_full_def zero_counts_def)

lemma ex_fill:
  "access_cache ex_full 2 zero_counts =
   Inr (MissFill,
        ex_full\<lparr>sets := [[\<lparr>valid = 1, tag = 0, lru = 0\<rparr>, \<lparr>valid = 1, tag = 1, lru = 0\<rparr>],
                          [\<lparr>valid = 1, tag = 0, lru = 0\<rparr>, \<lparr>valid = 0, tag = 0, lru = 0\<rparr>]]\<rparr>,
        \<lparr>hit = 0, miss = 1, evictions = 0\<rparr>)"
  by (simp add: access_eval ex_full_def zero_counts_def)

lemma ex_evict:
  "access_cache ex_full 8 zero_counts =
   Inr (MissEvict, ex_evicted, \<lparr>hit = 0, miss = 1, evictions = 1\<rparr>)"
  by (simp add: access_eval ex_full_def ex_evicted_def zero_counts_def)

lemma ex_wide_main: "main_init unlimited 0 False 4 1 60 False = Inr ex_wide"
  by (simp add: main_init_def makecache_eq unlimited_def ex_wide_def)

lemma ex_wide_access: "access_cache ex_wide a n = Inl UndefinedShift"
  by (simp add: access_cache_def shifts_defined_def ex_wide_def)

lemma ex_s32_main: "main_init unlimited 0 False 32 1 1 False = Inl UndefinedShift"
  by (simp add: main_init_def makecache_def)

lemma ex_s32_access: "access_cache ex_s32 2 zero_counts = Inl OutOfBounds"
  by (simp add: access_cache_def shifts_defined_def set_index_def ex_s32_def Let_def)

text \<open>
  With \<open>s = 32\<close> and \<open>b = 1\<close> the address \<open>2^32\<close> has the set index \<open>2^31\<close>, which no array
  of \<open>S\<close> sets holds, \<open>S\<close> being an \<^verbatim>\<open>int\<close>.
\<close>

lemma s32_out_of_bounds:
  assumes "c_s c = 32" and "c_b c = 1" and "length (sets c) < 2 ^ 31"
  shows "access_cache c 4294967296 n = Inl OutOfBounds"
proof -
  have "set_index c 4294967296 = 2147483648" by (simp add: set_index_def assms)
  with assms show ?thesis by (simp add: access_cache_def shifts_defined_def Let_def)
qed

lemma ex_ranked_evict:
  "access_cache ex_ranked 9 zero_counts =
   Inr (MissEvict, ex_ranked_evicted, \<lparr>hit = 0, miss = 1, evictions = 1\<rparr>)"
  by (simp add: access_eval ex_ranked_def ex_ranked_evicted_def zero_counts_def)

lemma ex_overflow_hit:
  "access_cache ex_one 0 \<lparr>hit = 2147483647, miss = 1, evictions = 0\<rparr> = Inl SignedOverflow"
  by (simp add: access_eval ex_one_def)

lemma ex_overflow_miss:
  "access_cache ex_fresh 0 \<lparr>hit = 0, miss = 2147483647, evictions = 0\<rparr> = Inl SignedOverflow"
  by (simp add: access_eval ex_fresh_def)

lemma ex_overflow_evictions:
  "access_cache ex_full 8 \<lparr>hit = 0, miss = 2, evictions = 2147483647\<rparr> = Inl SignedOverflow"
  by (simp add: access_eval ex_full_def)

section \<open>The eviction index on a ranked set\<close>

lemma find_lru_loop_found:
  "find_lru_loop E ls i = Inr r \<Longrightarrow> i \<le> j \<Longrightarrow> int j < E \<Longrightarrow> lru (ls ! j) = E - 1 \<Longrightarrow>
   r \<le> j \<and> r < length ls \<and> lru (ls ! r) = E - 1"
proof (induction E ls i rule: find_lru_loop.induct)
  case (1 E ls i)
  from "1.prems"(2,3) have True: "int i < E" by simp
  with "1.prems" have b: "\<not> length ls \<le> i"
    by (auto simp: find_lru_loop.simps [of E ls i] split: if_splits)
  show ?case
  proof (cases "lru (ls ! i) = E - 1")
    case t: True
    with True b "1.prems" have "r = i" by (simp add: find_lru_loop.simps [of E ls i])
    with b t "1.prems"(2) show ?thesis by simp
  next
    case f: False
    with True b "1.prems" have r: "find_lru_loop E ls (i + 1) = Inr r"
      by (simp add: find_lru_loop.simps [of E ls i])
    from f "1.prems"(4) have "j \<noteq> i" by auto
    with "1.prems"(2) have "i + 1 \<le> j" by simp
    from "1.IH" [OF True b f r this "1.prems"(3,4)] show ?thesis .
  qed
qed

lemma find_lru_ranked:
  assumes "ranked (c_E c) ls"
  shows "\<exists>j. find_lru c ls = Inr j \<and> j < length ls \<and> lru (ls ! j) = c_E c - 1 \<and>
             (\<forall>k < length ls. lru (ls ! k) \<le> lru (ls ! j)) \<and>
             (\<forall>k < j. lru (ls ! k) < lru (ls ! j))"
proof -
  from assms have len: "length ls = nat (c_E c)"
    and le: "\<And>k. k < length ls \<Longrightarrow> lru (ls ! k) \<le> c_E c - 1"
    by (simp_all add: ranked_def list_all_length)
  from assms obtain i where i: "i < length ls" "lru (ls ! i) = c_E c - 1"
    by (auto simp: ranked_def list_ex_length)
  from i(1) len have iE: "int i < c_E c" by simp
  from len have "nat (c_E c) \<le> length ls" by simp
  from find_lru_loop_total [OF this, of 0] obtain r
    where r: "find_lru_loop (c_E c) ls 0 = Inr r" by blast
  from find_lru_loop_found [OF r _ iE i(2)]
  have f: "r \<le> i" "r < length ls" "lru (ls ! r) = c_E c - 1" by simp_all
  have "lru (ls ! k) < lru (ls ! r)" if "k < r" for k
  proof -
    from find_lru_loop_first [OF r _ that] have "lru (ls ! k) \<noteq> c_E c - 1" by simp
    moreover from that f(2) have "lru (ls ! k) \<le> c_E c - 1" by (intro le) simp
    ultimately show ?thesis using f(3) by simp
  qed
  with r f le show ?thesis by (auto simp: find_lru_def)
qed

lemma lru_update_touched:
  assumes "lru_update_fun c ls k = Inr ls'"
  shows "k < length ls' \<and> lru (ls' ! k) = 0"
  using assms by (auto simp: lru_update_fun_def split: sum.splits if_splits)

section \<open>A long run of hits\<close>

text \<open>
  The trace that loads address 0 \<open>k\<close> times. At \<^verbatim>\<open>-s 1 -E 2 -b 1\<close> the first load is
  a miss and every later one a hit, so the hit counter reaches \<open>INT_MAX\<close> after
  \<open>2^31\<close> loads.
\<close>

lemma ex_one_hit:
  "access_cache ex_one 0 \<lparr>hit = h, miss = 1, evictions = 0\<rparr> =
     (if 2147483647 \<le> h then Inl SignedOverflow
      else Inr (Hit, ex_one, \<lparr>hit = h + 1, miss = 1, evictions = 0\<rparr>))"
  by (simp add: access_eval ex_one_def)

lemma ex_fresh_fill:
  "access_cache ex_fresh 0 zero_counts =
     Inr (MissFill, ex_one, \<lparr>hit = 0, miss = 1, evictions = 0\<rparr>)"
  by (simp add: access_eval ex_fresh_def ex_one_def zero_counts_def)

lemma ex_one_loads:
  "h + int k \<le> 2147483647 \<Longrightarrow>
   runsim ex_one (repeat_load k) \<lparr>hit = h, miss = 1, evictions = 0\<rparr> =
     Inr (ex_one, \<lparr>hit = h + int k, miss = 1, evictions = 0\<rparr>)"
proof (induction k arbitrary: h)
  case 0
  show ?case by (simp add: repeat_load_def)
next
  case (Suc k)
  from Suc.prems have b: "h + 1 + int k \<le> 2147483647" and "\<not> 2147483647 \<le> h" by simp_all
  then have a: "access_cache ex_one 0 \<lparr>hit = h, miss = 1, evictions = 0\<rparr> =
      Inr (Hit, ex_one, \<lparr>hit = h + 1, miss = 1, evictions = 0\<rparr>)"
    by (simp add: ex_one_hit)
  have "repeat_load (Suc k) = (CHR ''L'', 0, 1) # repeat_load k" by (simp add: repeat_load_def)
  then have "runsim ex_one (repeat_load (Suc k)) \<lparr>hit = h, miss = 1, evictions = 0\<rparr> =
      runsim ex_one (repeat_load k) \<lparr>hit = h + 1, miss = 1, evictions = 0\<rparr>"
    by (simp add: a)
  also from Suc.IH [OF b]
  have "\<dots> = Inr (ex_one, \<lparr>hit = h + 1 + int k, miss = 1, evictions = 0\<rparr>)" .
  also have "h + 1 + int k = h + int (Suc k)" by simp
  finally show ?case .
qed

lemma ex_loads:
  assumes "0 < k" "int k \<le> 2147483648"
  shows "runsim ex_fresh (repeat_load k) zero_counts =
           Inr (ex_one, \<lparr>hit = int k - 1, miss = 1, evictions = 0\<rparr>)"
proof -
  from assms(1) obtain k' where k: "k = Suc k'" by (cases k) simp_all
  with assms(2) have b: "0 + int k' \<le> 2147483647" by simp
  have "repeat_load k = (CHR ''L'', 0, 1) # repeat_load k'" by (simp add: k repeat_load_def)
  then have "runsim ex_fresh (repeat_load k) zero_counts =
      runsim ex_one (repeat_load k') \<lparr>hit = 0, miss = 1, evictions = 0\<rparr>"
    by (simp add: ex_fresh_fill)
  also from ex_one_loads [OF b]
  have "\<dots> = Inr (ex_one, \<lparr>hit = 0 + int k', miss = 1, evictions = 0\<rparr>)" .
  also have "0 + int k' = int k - 1" by (simp add: k)
  finally show ?thesis .
qed

lemma ex_loads_max:
  "runsim ex_fresh (repeat_load 2147483648) zero_counts =
     Inr (ex_one, \<lparr>hit = 2147483647, miss = 1, evictions = 0\<rparr>)"
  using ex_loads [of 2147483648] by simp

section \<open>The claims\<close>

text \<open>
  C1, the recency invariant: after any sequence of accesses, no two valid lines of a set
  share a recency, and the recencies of the valid lines of a set are exactly
  \<open>0, ..., (number of valid lines) - 1\<close>.
  The program does not keep it. Started as \<^verbatim>\<open>-s 1 -E 2 -b 1\<close> on the trace
  \<^verbatim>\<open>L 0,1\<close>, \<^verbatim>\<open>L 4,1\<close>, it fills both lines of set 0, and both end with \<open>lru = 0\<close>:
  the line filled second has \<open>lru = 0\<close> when \<^verbatim>\<open>lru_update\<close> is called on it, so no
  other line is below it and none is incremented.
\<close>

theorem two_fills_share_recency:
  "main_run unlimited 0 False 1 2 1 False [(CHR ''L'', 0, 1), (CHR ''L'', 4, 1)] =
   Inr (\<lparr>sets = [[\<lparr>valid = 1, tag = 0, lru = 0\<rparr>, \<lparr>valid = 1, tag = 1, lru = 0\<rparr>],
                  [\<lparr>valid = 0, tag = 0, lru = 0\<rparr>, \<lparr>valid = 0, tag = 0, lru = 0\<rparr>]],
           c_s = 1, c_E = 2, c_b = 1, c_S = 2\<rparr>,
        \<lparr>hit = 0, miss = 2, evictions = 0\<rparr>)"
  using ex_main ex_run2 by (simp add: main_run_def ex_fresh_def ex_full_def zero_counts_def del: runsim.simps)

text \<open>
  C2, the LRU law: with \<open>E = 2\<close>, the accesses A, B, A, C to one fresh set evict B on
  the access to C.
  The program evicts A. Started as \<^verbatim>\<open>-s 1 -E 2 -b 1\<close> on the trace \<^verbatim>\<open>L 0,1\<close>,
  \<^verbatim>\<open>L 4,1\<close>, \<^verbatim>\<open>L 0,1\<close>, \<^verbatim>\<open>L 8,1\<close> (tags 0, 1, 0, 2 in set 0), it ends with the tags
  2 and 1 in set 0: tag 0, touched last before the eviction, is gone, and tag 1 stays.
  Every \<open>lru\<close> is 0, \<^verbatim>\<open>find_lru\<close> finds no line with \<open>lru = E - 1 = 1\<close> and returns
  its initial index 0.
\<close>

theorem abac_evicts_a:
  "main_run unlimited 0 False 1 2 1 False
     [(CHR ''L'', 0, 1), (CHR ''L'', 4, 1), (CHR ''L'', 0, 1), (CHR ''L'', 8, 1)] =
   Inr (\<lparr>sets = [[\<lparr>valid = 1, tag = 2, lru = 0\<rparr>, \<lparr>valid = 1, tag = 1, lru = 0\<rparr>],
                  [\<lparr>valid = 0, tag = 0, lru = 0\<rparr>, \<lparr>valid = 0, tag = 0, lru = 0\<rparr>]],
           c_s = 1, c_E = 2, c_b = 1, c_S = 2\<rparr>,
        \<lparr>hit = 1, miss = 3, evictions = 1\<rparr>)"
  using ex_main ex_run4 by (simp add: main_run_def ex_fresh_def ex_evicted_def zero_counts_def del: runsim.simps)

text \<open>
  C3, eviction selection: whenever \<^verbatim>\<open>access_cache\<close> takes the eviction branch (the set
  is full and no tag matched), the line it evicts is the valid line with the largest
  recency in the set, and among several such lines the one with the lowest index.
  Whenever an access returns MissEvict, this holds in every cache the program reaches
  from \<^verbatim>\<open>makecache\<close> (which builds one only for \<open>0 \<le> s \<le> 30\<close>), and in every cache,
  reached or not, whose target set is ranked (it has \<open>E\<close> lines, no recency above
  \<open>E - 1\<close> and a line with recency \<open>E - 1\<close>): \<open>j\<close> is the index \<^verbatim>\<open>find_lru\<close>
  returns, line \<open>j\<close> is valid, no line has a larger \<open>lru\<close>, every line before \<open>j\<close> has a
  smaller one, and the access overwrites the tag of line \<open>j\<close> and of no other line,
  changes no valid bit and no other set, and leaves line \<open>j\<close> with recency 0.
  (In a cache the program reaches every \<open>lru\<close> is 0, see \<open>cache_inv\<close>, so \<open>j\<close> is 0
  there; on a ranked set \<open>j\<close> is the first line with \<open>lru = E - 1\<close>.)
\<close>

theorem eviction_selection:
  assumes "access_cache c a m = Inr (MissEvict, c', m')"
    and "(\<exists>ok s E b c0 evs n0 n. makecache ok s E b = Inr c0 \<and> runsim c0 evs n0 = Inr (c, n)) \<or>
         ranked (c_E c) (sets c ! set_index c a)"
  shows "\<exists>j. find_lru c (sets c ! set_index c a) = Inr j \<and>
             j < length (sets c ! set_index c a) \<and>
             valid (sets c ! set_index c a ! j) \<noteq> 0 \<and>
             (\<forall>k < length (sets c ! set_index c a).
                lru (sets c ! set_index c a ! k) \<le> lru (sets c ! set_index c a ! j)) \<and>
             (\<forall>k < j. lru (sets c ! set_index c a ! k) < lru (sets c ! set_index c a ! j)) \<and>
             (\<forall>k < length (sets c ! set_index c a).
                valid (sets c ! set_index c a ! k) \<noteq> 0 \<and>
                tag (sets c ! set_index c a ! k) \<noteq> block_tag c a) \<and>
             length (sets c') = length (sets c) \<and>
             (\<forall>i < length (sets c). i \<noteq> set_index c a \<longrightarrow> sets c' ! i = sets c ! i) \<and>
             map tag (sets c' ! set_index c a) =
               (map tag (sets c ! set_index c a))[j := block_tag c a] \<and>
             map valid (sets c' ! set_index c a) = map valid (sets c ! set_index c a) \<and>
             lru (sets c' ! set_index c a ! j) = 0"
proof -
  define idx where "idx = set_index c a"
  define ls where "ls = sets c ! idx"
  define tg where "tg = block_tag c a"
  from access_cache_MissEvict [OF assms(1)] obtain j ls'
    where h: "hit_scan (c_E c) ls tg 0 = Inr None"
      and e: "empty_scan (c_E c) ls 0 = Inr None"
      and f: "find_lru c ls = Inr j"
      and j: "j < length ls"
      and u: "lru_update_fun c (ls[j := (ls ! j)\<lparr>tag := tg\<rparr>]) j = Inr ls'"
      and c': "c' = c\<lparr>sets := (sets c)[idx := ls']\<rparr>"
    unfolding ls_def idx_def tg_def by blast
  have idx: "idx < length (sets c)"
    unfolding idx_def using assms(1) by (rule access_cache_Inr_index)
  have sel: "length ls = nat (c_E c) \<and> (\<forall>k < length ls. lru (ls ! k) \<le> lru (ls ! j)) \<and>
             (\<forall>k < j. lru (ls ! k) < lru (ls ! j))"
    using assms(2)
  proof
    assume "\<exists>ok s E b c0 evs n0 n. makecache ok s E b = Inr c0 \<and> runsim c0 evs n0 = Inr (c, n)"
    then obtain ok s E b c0 evs n0 n
      where "makecache ok s E b = Inr c0" "runsim c0 evs n0 = Inr (c, n)" by blast
    then have inv: "cache_inv s E b c" by (rule reached_inv)
    then have E: "c_E c = E" by (simp add: cache_inv_def)
    have z: "zero_lru E ls" unfolding ls_def using inv idx by (rule cache_inv_set)
    then have "find_lru c ls = Inr 0" by (intro find_lru_zero) (simp add: E)
    with f have "j = 0" by simp
    with z show ?thesis by (simp add: zero_lru_def list_all_length E)
  next
    assume "ranked (c_E c) (sets c ! set_index c a)"
    then have r: "ranked (c_E c) ls" by (simp add: ls_def idx_def)
    from find_lru_ranked [OF r] f r show ?thesis by (auto simp: ranked_def)
  qed
  then have len: "length ls = nat (c_E c)" by simp
  have full: "valid (ls ! k) \<noteq> 0 \<and> tag (ls ! k) \<noteq> tg" if "k < length ls" for k
  proof -
    from that len have k: "int k < c_E c" by simp
    from empty_scan_None [OF e _ k] have v: "valid (ls ! k) \<noteq> 0" by simp
    from hit_scan_None [OF h _ k] v show ?thesis by simp
  qed
  from lru_update_frame [OF u] j
  have fr: "map tag ls' = (map tag ls)[j := tg]" "map valid ls' = map valid ls"
    by (simp_all add: map_update list_update_same_conv)
  from lru_update_touched [OF u] have z: "lru (ls' ! j) = 0" by simp
  from idx have s': "length (sets c') = length (sets c)" "sets c' ! idx = ls'"
    "\<forall>i < length (sets c). i \<noteq> idx \<longrightarrow> sets c' ! i = sets c ! i"
    by (simp_all add: c')
  have "find_lru c ls = Inr j \<and> j < length ls \<and> valid (ls ! j) \<noteq> 0 \<and>
        (\<forall>k < length ls. lru (ls ! k) \<le> lru (ls ! j)) \<and>
        (\<forall>k < j. lru (ls ! k) < lru (ls ! j)) \<and>
        (\<forall>k < length ls. valid (ls ! k) \<noteq> 0 \<and> tag (ls ! k) \<noteq> tg) \<and>
        length (sets c') = length (sets c) \<and>
        (\<forall>i < length (sets c). i \<noteq> idx \<longrightarrow> sets c' ! i = sets c ! i) \<and>
        map tag (sets c' ! idx) = (map tag ls)[j := tg] \<and>
        map valid (sets c' ! idx) = map valid ls \<and>
        lru (sets c' ! idx ! j) = 0"
    using f j full sel fr z s' by simp
  then show ?thesis unfolding ls_def idx_def tg_def by (rule exI)
qed

theorem eviction_selection_witness:
  "access_cache ex_ranked 9 zero_counts =
     Inr (MissEvict, ex_ranked_evicted, \<lparr>hit = 0, miss = 1, evictions = 1\<rparr>) \<and>
   ranked (c_E ex_ranked) (sets ex_ranked ! set_index ex_ranked 9) \<and>
   find_lru ex_ranked (sets ex_ranked ! set_index ex_ranked 9) = Inr 1 \<and>
   map lru (sets ex_ranked ! set_index ex_ranked 9) = [0, 1] \<and>
   map tag (sets ex_ranked ! set_index ex_ranked 9) = [5, 7] \<and>
   map tag (sets ex_ranked_evicted ! set_index ex_ranked 9) = [5, 9] \<and>
   access_cache ex_full 8 zero_counts =
     Inr (MissEvict, ex_evicted, \<lparr>hit = 0, miss = 1, evictions = 1\<rparr>) \<and>
   find_lru ex_full (sets ex_full ! set_index ex_full 8) = Inr 0 \<and>
   map tag (sets ex_full ! set_index ex_full 8) = [0, 1] \<and>
   map tag (sets ex_evicted ! set_index ex_full 8) = [2, 1]"
proof -
  have r: "ranked (c_E ex_ranked) (sets ex_ranked ! set_index ex_ranked 9)"
    by (simp add: ranked_def ex_ranked_def set_index_def)
  have i: "set_index ex_ranked 9 = 0" "sets ex_ranked ! 0 = [\<lparr>valid = 1, tag = 5, lru = 0\<rparr>, \<lparr>valid = 1, tag = 7, lru = 1\<rparr>]"
    "block_tag ex_ranked 9 = 9"
    by (simp_all add: ex_ranked_def set_index_def block_tag_def)
  from eviction_selection [OF ex_ranked_evict disjI2, OF r]
  obtain j where j: "find_lru ex_ranked (sets ex_ranked ! set_index ex_ranked 9) = Inr j"
    "\<forall>k < length (sets ex_ranked ! set_index ex_ranked 9).
        lru (sets ex_ranked ! set_index ex_ranked 9 ! k) \<le> lru (sets ex_ranked ! set_index ex_ranked 9 ! j)"
    "j < length (sets ex_ranked ! set_index ex_ranked 9)"
    "map tag (sets ex_ranked_evicted ! set_index ex_ranked 9) =
       (map tag (sets ex_ranked ! set_index ex_ranked 9))[j := block_tag ex_ranked 9]"
    by blast
  from j(2) [rule_format, of 1] j(3) have "j = 1" by (cases j) (simp_all add: i)
  with j(1,4) have a: "find_lru ex_ranked (sets ex_ranked ! set_index ex_ranked 9) = Inr 1"
    "map tag (sets ex_ranked_evicted ! set_index ex_ranked 9) = [5, 9]"
    by (simp_all add: i)
  have p: "\<exists>ok s E b c0 evs n0 n.
      makecache ok s E b = Inr c0 \<and> runsim c0 evs n0 = Inr (ex_full, n)"
    using ex_make ex_run2 by blast
  have i': "set_index ex_full 8 = 0" "sets ex_full ! 0 = [\<lparr>valid = 1, tag = 0, lru = 0\<rparr>, \<lparr>valid = 1, tag = 1, lru = 0\<rparr>]"
    "block_tag ex_full 8 = 2"
    by (simp_all add: ex_full_def set_index_def block_tag_def)
  from eviction_selection [OF ex_evict disjI1, OF p]
  obtain j' where j': "find_lru ex_full (sets ex_full ! set_index ex_full 8) = Inr j'"
    "\<forall>k < j'. lru (sets ex_full ! set_index ex_full 8 ! k) < lru (sets ex_full ! set_index ex_full 8 ! j')"
    "j' < length (sets ex_full ! set_index ex_full 8)"
    "map tag (sets ex_evicted ! set_index ex_full 8) =
       (map tag (sets ex_full ! set_index ex_full 8))[j' := block_tag ex_full 8]"
    by blast
  from j'(2) [rule_format, of 0] j'(3) have "j' = 0" by (cases j') (simp_all add: i')
  with j'(1,4) have b: "find_lru ex_full (sets ex_full ! set_index ex_full 8) = Inr 0"
    "map tag (sets ex_evicted ! set_index ex_full 8) = [2, 1]"
    by (simp_all add: i')
  from ex_ranked_evict r a ex_evict b show ?thesis by (simp add: i i')
qed

text \<open>
  C4, configuration rejection: construction fails with a configuration error when
  \<open>E < 1\<close> or \<open>s + b > 64\<close>, and every triple with \<open>s \<ge> 0\<close>, \<open>b \<ge> 0\<close>, \<open>E \<ge> 1\<close> and
  \<open>s + b \<le> 64\<close> is accepted.
  Neither half holds. \<^verbatim>\<open>-s 4 -E 1 -b 61\<close> has \<open>s + b = 65\<close> and the cache is built;
  \<^verbatim>\<open>-s 0 -E 1 -b 0\<close> is within the bounds and \<^verbatim>\<open>main\<close> prints the usage and exits.
\<close>

theorem configuration_counterexample:
  "main_init unlimited 0 False 4 1 61 False =
     Inr \<lparr>sets = replicate 16 (fresh_lines 1), c_s = 4, c_E = 1, c_b = 61, c_S = 16\<rparr> \<and>
   main_init unlimited 0 False 0 1 0 False = Inl UsageExit"
proof -
  have "makecache unlimited 4 1 61 =
      Inr \<lparr>sets = replicate (2 ^ nat 4) (fresh_lines 1), c_s = 4, c_E = 1, c_b = 61, c_S = 2 ^ nat 4\<rparr>"
    by (rule makecache_eq) (simp_all add: unlimited_def)
  then show ?thesis by (simp add: main_init_def)
qed

text \<open>
  C4 as amended. With the help flag off, an argument and a trace file given, and
  \<open>0 \<le> s \<le> 30\<close> (where \<^verbatim>\<open>1 << s\<close> is defined), \<^verbatim>\<open>main\<close> rejects the configuration, by
  printing the usage, exactly when \<open>s = 0\<close> or \<open>E = 0\<close> or \<open>b = 0\<close>. Every other
  configuration reaches \<^verbatim>\<open>makecache\<close>, which checks nothing about \<open>s\<close>, \<open>E\<close> and \<open>b\<close>: it
  returns the cache of \<open>2^s\<close> sets of \<open>E\<close> zeroed lines when \<^verbatim>\<open>malloc\<close> grants its three
  kinds of request, and fails (an allocation error) exactly when one is refused.
\<close>

theorem configuration_check:
  assumes "h \<noteq> 1" and "\<not> no_args" and "\<not> no_trace" and "0 \<le> s" and "s \<le> 30"
  shows "(main_init ok h no_args s E b no_trace = Inl UsageExit) = (s = 0 \<or> E = 0 \<or> b = 0) \<and>
         (main_init ok h no_args s E b no_trace =
            Inr \<lparr>sets = replicate (2 ^ nat s) (fresh_lines E), c_s = s, c_E = E, c_b = b, c_S = 2 ^ nat s\<rparr>) =
           (s \<noteq> 0 \<and> E \<noteq> 0 \<and> b \<noteq> 0 \<and> ok sizeof_cache \<and>
            ok (size_request (2 ^ nat s) sizeof_set) \<and> ok (size_request E sizeof_line)) \<and>
         (main_init ok h no_args s E b no_trace = Inl AllocError) =
           (s \<noteq> 0 \<and> E \<noteq> 0 \<and> b \<noteq> 0 \<and>
            \<not> (ok sizeof_cache \<and> ok (size_request (2 ^ nat s) sizeof_set) \<and> ok (size_request E sizeof_line)))"
proof (cases "s = 0 \<or> E = 0 \<or> b = 0")
  case True
  then show ?thesis by (auto simp: main_init_def)
next
  case False
  with assms(1-3) have m: "main_init ok h no_args s E b no_trace = makecache ok s E b"
    by (simp add: main_init_def)
  show ?thesis
  proof (cases "ok sizeof_cache \<and> ok (size_request (2 ^ nat s) sizeof_set) \<and> ok (size_request E sizeof_line)")
    case True
    with makecache_eq [OF assms(4,5), of ok E b] False show ?thesis by (simp add: m)
  next
    case n: False
    obtain e where "makecache ok s E b = Inl e"
      using makecache_Inr [of ok s E b] n by (cases "makecache ok s E b") auto
    with makecache_Inl [OF assms(4,5) this] have "makecache ok s E b = Inl AllocError" by simp
    with False n show ?thesis by (simp add: m)
  qed
qed

theorem configuration_check_witness:
  "(0::int) \<noteq> 1 \<and> (0::int) \<le> 4 \<and> (4::int) \<le> 30 \<and>
   (main_init unlimited 0 False 4 1 61 False = Inl UsageExit) = ((4::int) = 0 \<or> (1::int) = 0 \<or> (61::int) = 0) \<and>
   main_init unlimited 0 False 4 1 61 False =
     Inr \<lparr>sets = replicate (2 ^ nat 4) (fresh_lines 1), c_s = 4, c_E = 1, c_b = 61, c_S = 2 ^ nat 4\<rparr>"
proof -
  have e: "(0::int) \<noteq> 1" "\<not> False" "(0::int) \<le> 4" "(4::int) \<le> 30" by simp_all
  from configuration_check [OF e(1,2,2,3,4), of unlimited 1 61] show ?thesis
    by (simp add: unlimited_def)
qed

text \<open>
  C5, the access algorithm and the counters: for every validly constructed cache and
  every address, \<^verbatim>\<open>access_cache\<close> returns Hit if some valid line of the target set
  holds the tag, and then changes no tag and no valid bit; otherwise, if the set has
  an invalid line, it makes the first invalid line valid, stores the tag there and
  returns MissFill; otherwise it evicts a line and returns MissEvict. The miss counter
  goes up by one exactly on MissFill and MissEvict, the eviction counter exactly on
  MissEvict.
  Not for every constructed cache and not for every counter value.
  \<^verbatim>\<open>-s 4 -E 1 -b 60\<close> passes the check in \<^verbatim>\<open>main\<close> and \<^verbatim>\<open>makecache\<close> builds the cache, but
  \<open>s + b\<close> is 64 and line 268 is \<^verbatim>\<open>*address >> 64\<close>, a shift of an \<^verbatim>\<open>unsigned long\<close> by
  its full width, which C leaves undefined: the access to address 0 of the fresh cache
  is not the MissFill the claim asks for. And the counters are \<^verbatim>\<open>int\<close>: at
  \<^verbatim>\<open>-s 1 -E 2 -b 1\<close>, \<open>2^31\<close> loads of address 0 leave the hit counter at \<open>INT_MAX\<close>, and
  in the next load, a hit, \<^verbatim>\<open>*hit += 1\<close> overflows.
\<close>

theorem access_algorithm_counterexample:
  "main_init unlimited 0 False 4 1 60 False = Inr ex_wide \<and>
   access_cache ex_wide 0 zero_counts = Inl UndefinedShift \<and>
   runsim ex_fresh (repeat_load 2147483648) zero_counts =
     Inr (ex_one, \<lparr>hit = 2147483647, miss = 1, evictions = 0\<rparr>) \<and>
   access_cache ex_one 0 \<lparr>hit = 2147483647, miss = 1, evictions = 0\<rparr> = Inl SignedOverflow"
  using ex_wide_main ex_wide_access [of 0 zero_counts] ex_loads_max ex_overflow_hit
  by (intro conjI)

text \<open>
  C5 as amended. In every cache the program reaches from a \<^verbatim>\<open>makecache\<close> with
  \<open>0 \<le> s \<le> 30\<close>, \<open>E \<ge> 1\<close>, \<open>b \<ge> 0\<close> and \<open>s + b \<le> 63\<close>, and for counters below \<open>INT_MAX\<close>:
  if some valid line of the target set holds the tag, the access returns Hit, leaves
  the cache as it was (the recencies included) and adds one to the hit counter only;
  otherwise, if the set has an invalid line, it makes the first invalid line valid,
  stores the tag there, returns MissFill and adds one to the miss counter only;
  otherwise it overwrites the tag of one line of the full set, returns MissEvict and
  adds one to the miss counter and one to the eviction counter.
\<close>

theorem access_algorithm:
  assumes "makecache ok s E b = Inr c0" and "runsim c0 evs n0 = Inr (c, n)"
    and "0 \<le> s" and "s \<le> 30" and "1 \<le> E" and "0 \<le> b" and "s + b \<le> 63"
    and "hit m < INT_MAX" and "miss m < INT_MAX" and "evictions m < INT_MAX"
  shows "if \<exists>k < length (sets c ! set_index c a).
              valid (sets c ! set_index c a ! k) \<noteq> 0 \<and> tag (sets c ! set_index c a ! k) = block_tag c a
         then access_cache c a m = Inr (Hit, c, m\<lparr>hit := hit m + 1\<rparr>)
         else if \<exists>k < length (sets c ! set_index c a). valid (sets c ! set_index c a ! k) = 0
         then \<exists>i < length (sets c ! set_index c a).
                valid (sets c ! set_index c a ! i) = 0 \<and>
                (\<forall>k < i. valid (sets c ! set_index c a ! k) \<noteq> 0) \<and>
                access_cache c a m =
                  Inr (MissFill,
                       c\<lparr>sets := (sets c)[set_index c a :=
                            (sets c ! set_index c a)
                              [i := (sets c ! set_index c a ! i)\<lparr>valid := 1, tag := block_tag c a\<rparr>]]\<rparr>,
                       m\<lparr>miss := miss m + 1\<rparr>)
         else \<exists>j < length (sets c ! set_index c a).
                access_cache c a m =
                  Inr (MissEvict,
                       c\<lparr>sets := (sets c)[set_index c a :=
                            (sets c ! set_index c a)
                              [j := (sets c ! set_index c a ! j)\<lparr>tag := block_tag c a\<rparr>]]\<rparr>,
                       m\<lparr>miss := miss m + 1, evictions := evictions m + 1\<rparr>)"
proof -
  define ls where "ls = sets c ! set_index c a"
  define tg where "tg = block_tag c a"
  from assms(7) have sb: "s + b < 64" by simp
  have inv: "cache_inv s E b c" using assms(1,2) by (rule reached_inv)
  have z: "zero_lru E ls"
    unfolding ls_def using inv cache_inv_index [OF inv] by (rule cache_inv_set)
  then have len: "length ls = nat E" by (simp add: zero_lru_def)
  from inv assms(6) sb assms(5) show ?thesis
  proof (cases rule: access_cache_cases [where a = a and n = m])
    case (hit i)
    from hit_scan_Some [OF hit(1)]
    have "\<exists>k < length ls. valid (ls ! k) \<noteq> 0 \<and> tag (ls ! k) = tg"
      unfolding ls_def tg_def by blast
    moreover from hit(2) assms(8)
    have "access_cache c a m = Inr (Hit, c, m\<lparr>hit := hit m + 1\<rparr>)" by simp
    ultimately show ?thesis
      unfolding ls_def [symmetric] tg_def [symmetric] by (simp only: if_True)
  next
    case (fill i)
    have nohit: "\<not> (\<exists>k < length ls. valid (ls ! k) \<noteq> 0 \<and> tag (ls ! k) = tg)"
    proof
      assume "\<exists>k < length ls. valid (ls ! k) \<noteq> 0 \<and> tag (ls ! k) = tg"
      then obtain k where k: "k < length ls" "valid (ls ! k) \<noteq> 0" "tag (ls ! k) = tg" by blast
      from k(1) len have "int k < E" by simp
      from hit_scan_None [OF fill(1) _ this] k(2,3) show False by (simp add: ls_def tg_def)
    qed
    from empty_scan_Some [OF fill(2)]
    have i: "i < length ls" "valid (ls ! i) = 0" "\<forall>k < i. valid (ls ! k) \<noteq> 0"
      by (simp_all add: ls_def)
    then have inval: "\<exists>k < length ls. valid (ls ! k) = 0" by blast
    from fill(3) assms(9)
    have acc: "access_cache c a m =
        Inr (MissFill, c\<lparr>sets := (sets c)[set_index c a := ls[i := (ls ! i)\<lparr>valid := 1, tag := tg\<rparr>]]\<rparr>,
             m\<lparr>miss := miss m + 1\<rparr>)"
      by (simp add: ls_def tg_def)
    have "\<exists>i < length ls. valid (ls ! i) = 0 \<and> (\<forall>k < i. valid (ls ! k) \<noteq> 0) \<and>
            access_cache c a m =
              Inr (MissFill, c\<lparr>sets := (sets c)[set_index c a := ls[i := (ls ! i)\<lparr>valid := 1, tag := tg\<rparr>]]\<rparr>,
                   m\<lparr>miss := miss m + 1\<rparr>)"
      using i acc by blast
    with nohit inval show ?thesis
      unfolding ls_def [symmetric] tg_def [symmetric] by (simp only: if_True if_False)
  next
    case evict
    have nohit: "\<not> (\<exists>k < length ls. valid (ls ! k) \<noteq> 0 \<and> tag (ls ! k) = tg)"
    proof
      assume "\<exists>k < length ls. valid (ls ! k) \<noteq> 0 \<and> tag (ls ! k) = tg"
      then obtain k where k: "k < length ls" "valid (ls ! k) \<noteq> 0" "tag (ls ! k) = tg" by blast
      from k(1) len have "int k < E" by simp
      from hit_scan_None [OF evict(1) _ this] k(2,3) show False by (simp add: ls_def tg_def)
    qed
    have noinval: "\<not> (\<exists>k < length ls. valid (ls ! k) = 0)"
    proof
      assume "\<exists>k < length ls. valid (ls ! k) = 0"
      then obtain k where k: "k < length ls" "valid (ls ! k) = 0" by blast
      from k(1) len have "int k < E" by simp
      from empty_scan_None [OF evict(2) _ this] k(2) show False by (simp add: ls_def)
    qed
    from evict(5) assms(9,10)
    have acc: "access_cache c a m =
        Inr (MissEvict, c\<lparr>sets := (sets c)[set_index c a := ls[0 := (ls ! 0)\<lparr>tag := tg\<rparr>]]\<rparr>,
             m\<lparr>miss := miss m + 1, evictions := evictions m + 1\<rparr>)"
      by (simp add: ls_def tg_def)
    from evict(3) have "0 < length ls" by (simp add: ls_def)
    with acc have "\<exists>j < length ls.
            access_cache c a m =
              Inr (MissEvict, c\<lparr>sets := (sets c)[set_index c a := ls[j := (ls ! j)\<lparr>tag := tg\<rparr>]]\<rparr>,
                   m\<lparr>miss := miss m + 1, evictions := evictions m + 1\<rparr>)"
      by blast
    with nohit noinval show ?thesis
      unfolding ls_def [symmetric] tg_def [symmetric] by (simp only: if_True if_False)
  qed
qed

theorem access_algorithm_witness:
  "makecache unlimited 1 2 1 = Inr ex_fresh \<and>
   runsim ex_fresh [(CHR ''L'', 0, 1), (CHR ''L'', 4, 1)] zero_counts =
     Inr (ex_full, \<lparr>hit = 0, miss = 2, evictions = 0\<rparr>) \<and>
   (0::int) \<le> 1 \<and> (1::int) \<le> 30 \<and> (1::int) \<le> 2 \<and> (1::int) + 1 \<le> 63 \<and>
   hit zero_counts < INT_MAX \<and> miss zero_counts < INT_MAX \<and> evictions zero_counts < INT_MAX \<and>
   (if \<exists>k < length (sets ex_full ! set_index ex_full 8).
              valid (sets ex_full ! set_index ex_full 8 ! k) \<noteq> 0 \<and> tag (sets ex_full ! set_index ex_full 8 ! k) = block_tag ex_full 8
         then access_cache ex_full 8 zero_counts = Inr (Hit, ex_full, zero_counts\<lparr>hit := hit zero_counts + 1\<rparr>)
         else if \<exists>k < length (sets ex_full ! set_index ex_full 8). valid (sets ex_full ! set_index ex_full 8 ! k) = 0
         then \<exists>i < length (sets ex_full ! set_index ex_full 8).
                valid (sets ex_full ! set_index ex_full 8 ! i) = 0 \<and>
                (\<forall>k < i. valid (sets ex_full ! set_index ex_full 8 ! k) \<noteq> 0) \<and>
                access_cache ex_full 8 zero_counts =
                  Inr (MissFill,
                       ex_full\<lparr>sets := (sets ex_full)[set_index ex_full 8 :=
                            (sets ex_full ! set_index ex_full 8)
                              [i := (sets ex_full ! set_index ex_full 8 ! i)\<lparr>valid := 1, tag := block_tag ex_full 8\<rparr>]]\<rparr>,
                       zero_counts\<lparr>miss := miss zero_counts + 1\<rparr>)
         else \<exists>j < length (sets ex_full ! set_index ex_full 8).
                access_cache ex_full 8 zero_counts =
                  Inr (MissEvict,
                       ex_full\<lparr>sets := (sets ex_full)[set_index ex_full 8 :=
                            (sets ex_full ! set_index ex_full 8)
                              [j := (sets ex_full ! set_index ex_full 8 ! j)\<lparr>tag := block_tag ex_full 8\<rparr>]]\<rparr>,
                       zero_counts\<lparr>miss := miss zero_counts + 1, evictions := evictions zero_counts + 1\<rparr>)) \<and>
   access_cache ex_full 8 zero_counts =
     Inr (MissEvict, ex_evicted, \<lparr>hit = 0, miss = 1, evictions = 1\<rparr>)"
proof -
  have e: "(0::int) \<le> 1" "(1::int) \<le> 30" "(1::int) \<le> 2" "(1::int) + 1 \<le> 63" by simp_all
  have k: "hit zero_counts < INT_MAX" "miss zero_counts < INT_MAX" "evictions zero_counts < INT_MAX"
    by (simp_all add: zero_counts_def INT_MAX_def)
  from ex_make ex_run2 e k
    access_algorithm [OF ex_make ex_run2 e(1,2,3,1,4) k, of 8] ex_evict
  show ?thesis by (intro conjI)
qed

text \<open>
  C6, address decomposition: for every validly constructed cache with parameters
  \<open>(s, E, b)\<close> and every address \<open>a\<close>, an access uses the set index \<open>(a >> b) & (S - 1)\<close>
  with \<open>S = 2^s\<close> and the tag \<open>a >> (s + b)\<close>, and the block-offset bits of \<open>a\<close> have no
  effect on the outcome.
  Not for every constructed cache. \<^verbatim>\<open>-s 4 -E 1 -b 60\<close> passes the check in \<^verbatim>\<open>main\<close> and
  \<^verbatim>\<open>makecache\<close> builds the cache; \<open>s + b\<close> is 64 there, and the tag of line 268 is
  \<^verbatim>\<open>*address >> 64\<close>, a shift by the full width of an \<^verbatim>\<open>unsigned long\<close>, which C leaves
  undefined: no access, to address 0 or to address 1 of the same block, has a tag
  \<open>a >> (s + b)\<close>.
\<close>

theorem address_decomposition_counterexample:
  "main_init unlimited 0 False 4 1 60 False = Inr ex_wide \<and>
   c_s ex_wide + c_b ex_wide = 64 \<and>
   access_cache ex_wide 0 zero_counts = Inl UndefinedShift \<and>
   access_cache ex_wide 1 zero_counts = Inl UndefinedShift"
proof -
  have "c_s ex_wide + c_b ex_wide = 64" by (simp add: ex_wide_def)
  with ex_wide_main ex_wide_access [of 0 zero_counts] ex_wide_access [of 1 zero_counts]
  show ?thesis by (intro conjI)
qed

text \<open>
  C6 as amended. In every cache the program reaches from a \<^verbatim>\<open>makecache\<close> with
  \<open>0 \<le> s \<le> 30\<close>, \<open>E \<ge> 1\<close>, \<open>b \<ge> 0\<close> and \<open>s + b \<le> 63\<close>: the field \<open>S\<close> is \<open>2^s\<close>; the index and
  the tag the access computes are \<open>(a >> b) & (S - 1)\<close> and \<open>a >> (s + b)\<close>; the access
  either stops at the increment of a counter (one of the counters is at \<open>INT_MAX\<close>
  then), or it returns an outcome, changes no set other than the one at that index,
  and leaves in that set a valid line with that tag; and an address that differs from
  \<open>a\<close> only in its low \<open>b\<close> bits gives the same result, outcome, cache and counters.
\<close>

theorem address_decomposition:
  assumes "makecache ok s E b = Inr c0" and "runsim c0 evs n0 = Inr (c, n)"
    and "0 \<le> s" and "s \<le> 30" and "1 \<le> E" and "0 \<le> b" and "s + b \<le> 63"
  shows "c_S c = 2 ^ nat s \<and>
         set_index c a = unat (drop_bit (nat b) a AND (word_of_int (c_S c) - 1)) \<and>
         block_tag c a = drop_bit (nat (s + b)) a \<and>
         ((access_cache c a m = Inl SignedOverflow \<and>
             (INT_MAX \<le> hit m \<or> INT_MAX \<le> miss m \<or> INT_MAX \<le> evictions m)) \<or>
          (\<exists>out c' m'. access_cache c a m = Inr (out, c', m') \<and>
             (\<forall>i < length (sets c). i \<noteq> set_index c a \<longrightarrow> sets c' ! i = sets c ! i) \<and>
             (\<exists>k < length (sets c' ! set_index c a).
                valid (sets c' ! set_index c a ! k) \<noteq> 0 \<and>
                tag (sets c' ! set_index c a ! k) = block_tag c a))) \<and>
         (\<forall>a'. drop_bit (nat b) a' = drop_bit (nat b) a \<longrightarrow>
               access_cache c a' m = access_cache c a m)"
proof -
  from assms(7) have sb: "s + b < 64" by simp
  have inv: "cache_inv s E b c" using assms(1,2) by (rule reached_inv)
  then have par: "c_s c = s" "c_b c = b" "c_S c = 2 ^ nat s"
    by (simp_all add: cache_inv_def)
  have idx: "set_index c a < length (sets c)" using inv by (rule cache_inv_index)
  have 1: "set_index c a = unat (drop_bit (nat b) a AND (word_of_int (c_S c) - 1))"
    by (simp add: set_index_def par push_bit_of_1)
  have 2: "block_tag c a = drop_bit (nat (s + b)) a"
    by (simp add: block_tag_def par)
  have 5: "access_cache c a' m = access_cache c a m" if "drop_bit (nat b) a' = drop_bit (nat b) a" for a'
  proof (rule access_cache_same_block)
    from that show "set_index c a' = set_index c a" by (simp add: set_index_def par)
    from that par assms(3,6) show "block_tag c a' = block_tag c a" by (simp add: block_tag_drop)
  qed
  have 34: "access_cache c a m = Inl SignedOverflow \<and>
            (INT_MAX \<le> hit m \<or> INT_MAX \<le> miss m \<or> INT_MAX \<le> evictions m) \<or>
          (\<exists>out c' m'. access_cache c a m = Inr (out, c', m') \<and>
             (\<forall>i < length (sets c). i \<noteq> set_index c a \<longrightarrow> sets c' ! i = sets c ! i) \<and>
             (\<exists>k < length (sets c' ! set_index c a).
                valid (sets c' ! set_index c a ! k) \<noteq> 0 \<and>
                tag (sets c' ! set_index c a ! k) = block_tag c a))"
  proof (cases "access_cache c a m")
    case (Inl e)
    from inv assms(6) sb assms(5) have "e = SignedOverflow \<and>
        (INT_MAX \<le> hit m \<or> INT_MAX \<le> miss m \<or> INT_MAX \<le> evictions m)"
      by (cases rule: access_cache_cases [where a = a and n = m])
        (use Inl in \<open>auto split: if_splits\<close>)
    with Inl show ?thesis by simp
  next
    case (Inr r)
    obtain out c' m' where r: "r = (out, c', m')" by (cases r)
    with Inr have acc: "access_cache c a m = Inr (out, c', m')" by simp
    from access_cache_held [OF inv acc] obtain k
      where k: "k < length (sets c' ! set_index c a)" "valid (sets c' ! set_index c a ! k) \<noteq> 0"
        "tag (sets c' ! set_index c a ! k) = block_tag c a"
      by blast
    have "\<forall>i < length (sets c). i \<noteq> set_index c a \<longrightarrow> sets c' ! i = sets c ! i"
      using inv acc by (cases rule: access_cache_Inr_cases) simp_all
    with acc k show ?thesis by blast
  qed
  from par(3) 1 2 34 5 show ?thesis by blast
qed

theorem address_decomposition_witness:
  "makecache unlimited 1 2 1 = Inr ex_fresh \<and>
   runsim ex_fresh [(CHR ''L'', 0, 1), (CHR ''L'', 4, 1)] zero_counts =
     Inr (ex_full, \<lparr>hit = 0, miss = 2, evictions = 0\<rparr>) \<and>
   (0::int) \<le> 1 \<and> (1::int) \<le> 30 \<and> (1::int) \<le> 2 \<and> (1::int) + 1 \<le> 63 \<and>
   access_cache ex_full 8 zero_counts =
     Inr (MissEvict, ex_evicted, \<lparr>hit = 0, miss = 1, evictions = 1\<rparr>) \<and>
   c_S ex_full = 2 ^ nat 1 \<and>
   set_index ex_full 8 = unat (drop_bit (nat 1) (8 :: 64 word) AND (word_of_int (c_S ex_full) - 1)) \<and>
   block_tag ex_full 8 = drop_bit (nat (1 + 1)) 8 \<and>
   access_cache ex_full 9 zero_counts = access_cache ex_full 8 zero_counts"
proof -
  have e: "(0::int) \<le> 1" "(1::int) \<le> 30" "(1::int) \<le> 2" "(1::int) + 1 \<le> 63" by simp_all
  have d: "drop_bit (nat 1) (9 :: 64 word) = drop_bit (nat 1) 8" by simp
  note h = ex_make ex_run2
  from h e ex_evict d address_decomposition [OF h e(1,2,3,1,4), of 8 zero_counts]
  show ?thesis by (intro conjI) blast+
qed

text \<open>
  C7, Modify: \<^verbatim>\<open>runsim\<close> handles an \<^verbatim>\<open>M\<close> record by two consecutive calls of
  \<^verbatim>\<open>access_cache\<close> on the same address; for every validly constructed cache (\<open>E \<ge> 1\<close>),
  every reachable state and every address the second call returns Hit, so a Modify on
  a previously unseen address yields exactly one miss and one hit, never two misses.
  Three things are in the way. An address that was never accessed may lie in a block
  that is cached: at \<^verbatim>\<open>-s 1 -E 2 -b 1\<close> the trace \<^verbatim>\<open>L 0,1\<close>, \<^verbatim>\<open>M 1,1\<close> ends with two hits and
  one miss, the miss being the load, so the Modify of the unseen address 1 gave two
  hits and no miss. At \<^verbatim>\<open>-s 4 -E 1 -b 60\<close>, which \<^verbatim>\<open>main\<close> accepts, the first access of a
  Modify shifts by 64, which C leaves undefined. And with the hit counter at
  \<open>INT_MAX\<close>, where \<open>2^31\<close> loads of address 0 leave it, the first access of a Modify of
  address 0 overflows it.
\<close>

theorem modify_counterexample:
  "main_run unlimited 0 False 1 2 1 False [(CHR ''L'', 0, 1), (CHR ''M'', 1, 1)] =
     Inr (ex_one, \<lparr>hit = 2, miss = 1, evictions = 0\<rparr>) \<and>
   runsim ex_fresh [(CHR ''L'', 0, 1)] zero_counts =
     Inr (ex_one, \<lparr>hit = 0, miss = 1, evictions = 0\<rparr>) \<and>
   runsim ex_one [(CHR ''M'', 1, 1)] \<lparr>hit = 0, miss = 1, evictions = 0\<rparr> =
     Inr (ex_one, \<lparr>hit = 2, miss = 1, evictions = 0\<rparr>) \<and>
   main_init unlimited 0 False 4 1 60 False = Inr ex_wide \<and>
   runsim ex_wide [(CHR ''M'', 0, 1)] zero_counts = Inl UndefinedShift \<and>
   runsim ex_fresh (repeat_load 2147483648) zero_counts =
     Inr (ex_one, \<lparr>hit = 2147483647, miss = 1, evictions = 0\<rparr>) \<and>
   runsim ex_one [(CHR ''M'', 0, 1)] \<lparr>hit = 2147483647, miss = 1, evictions = 0\<rparr> =
     Inl SignedOverflow"
proof -
  have m: "runsim ex_one [(CHR ''M'', 1, 1)] \<lparr>hit = 0, miss = 1, evictions = 0\<rparr> =
      Inr (ex_one, \<lparr>hit = 2, miss = 1, evictions = 0\<rparr>)"
    by (simp add: access_eval ex_one_def)
  have r: "runsim ex_fresh [(CHR ''L'', 0, 1), (CHR ''M'', 1, 1)] zero_counts =
      Inr (ex_one, \<lparr>hit = 2, miss = 1, evictions = 0\<rparr>)"
    by (simp add: access_eval ex_fresh_def ex_one_def zero_counts_def)
  from ex_main r
  have "main_run unlimited 0 False 1 2 1 False [(CHR ''L'', 0, 1), (CHR ''M'', 1, 1)] =
      Inr (ex_one, \<lparr>hit = 2, miss = 1, evictions = 0\<rparr>)"
    by (simp add: main_run_def zero_counts_def del: runsim.simps)
  moreover have "runsim ex_wide [(CHR ''M'', 0, 1)] zero_counts = Inl UndefinedShift"
    by (simp add: ex_wide_access)
  moreover have "runsim ex_one [(CHR ''M'', 0, 1)] \<lparr>hit = 2147483647, miss = 1, evictions = 0\<rparr> =
      Inl SignedOverflow"
    by (simp add: ex_overflow_hit)
  ultimately show ?thesis using ex_run1 m ex_wide_main ex_loads_max by (intro conjI)
qed

text \<open>
  C7 as amended. In every cache the program reaches from a \<^verbatim>\<open>makecache\<close> with
  \<open>0 \<le> s \<le> 30\<close>, \<open>E \<ge> 1\<close>, \<open>b \<ge> 0\<close> and \<open>s + b \<le> 63\<close>, with the hit counter below
  \<open>INT_MAX - 1\<close> and the other two below \<open>INT_MAX\<close>: the first access of an \<^verbatim>\<open>M\<close> record
  returns some outcome, the second one is a hit that leaves the cache as the first one
  left it, and the record ends in that state. The first access is a hit exactly when a
  valid line of the target set holds the tag of the address (the block is cached,
  whether or not the address itself was accessed before), and then the record adds two
  hits; when the block is not cached, the record adds one miss and one hit (and one
  eviction if the first access evicted), never two misses.
\<close>

theorem modify_second_hit:
  assumes "makecache ok s E b = Inr c0" and "runsim c0 evs n0 = Inr (c, n)"
    and "0 \<le> s" and "s \<le> 30" and "1 \<le> E" and "0 \<le> b" and "s + b \<le> 63"
    and "hit n < INT_MAX - 1" and "miss n < INT_MAX" and "evictions n < INT_MAX"
  shows "\<exists>out c1 n1.
           access_cache c a n = Inr (out, c1, n1) \<and>
           access_cache c1 a n1 = Inr (Hit, c1, n1\<lparr>hit := hit n1 + 1\<rparr>) \<and>
           runsim c [(CHR ''M'', a, sz)] n = Inr (c1, n1\<lparr>hit := hit n1 + 1\<rparr>) \<and>
           (out = Hit) =
             (\<exists>k < length (sets c ! set_index c a).
                valid (sets c ! set_index c a ! k) \<noteq> 0 \<and>
                tag (sets c ! set_index c a ! k) = block_tag c a) \<and>
           (if out = Hit
            then n1\<lparr>hit := hit n1 + 1\<rparr> = n\<lparr>hit := hit n + 2\<rparr>
            else n1\<lparr>hit := hit n1 + 1\<rparr> = n\<lparr>hit := hit n + 1, miss := miss n + 1,
                   evictions := evictions n + (if out = MissEvict then 1 else 0)\<rparr>)"
proof -
  from assms(7) have sb: "s + b < 64" by simp
  from assms(8) have h: "hit n < INT_MAX" by simp
  have inv: "cache_inv s E b c" using assms(1,2) by (rule reached_inv)
  have "zero_lru E (sets c ! set_index c a)"
    using inv cache_inv_index [OF inv] by (rule cache_inv_set)
  then have len: "length (sets c ! set_index c a) = nat E" by (simp add: zero_lru_def)
  from access_cache_total [OF inv assms(6) sb assms(5) h assms(9,10), of a] obtain out c1 n1
    where a1: "access_cache c a n = Inr (out, c1, n1)" by blast
  have nohit: "\<not> (\<exists>k < length (sets c ! set_index c a).
                valid (sets c ! set_index c a ! k) \<noteq> 0 \<and>
                tag (sets c ! set_index c a ! k) = block_tag c a)"
    if "hit_scan E (sets c ! set_index c a) (block_tag c a) 0 = Inr None"
  proof
    assume "\<exists>k < length (sets c ! set_index c a).
                valid (sets c ! set_index c a ! k) \<noteq> 0 \<and>
                tag (sets c ! set_index c a ! k) = block_tag c a"
    then obtain k where k: "k < length (sets c ! set_index c a)"
      "valid (sets c ! set_index c a ! k) \<noteq> 0" "tag (sets c ! set_index c a ! k) = block_tag c a"
      by blast
    from k(1) len have "int k < E" by simp
    from hit_scan_None [OF that _ this] k(2,3) show False by simp
  qed
  from inv a1
  have cnt: "hit n1 < INT_MAX \<and>
           (out = Hit) =
             (\<exists>k < length (sets c ! set_index c a).
                valid (sets c ! set_index c a ! k) \<noteq> 0 \<and>
                tag (sets c ! set_index c a ! k) = block_tag c a) \<and>
           (if out = Hit
            then n1\<lparr>hit := hit n1 + 1\<rparr> = n\<lparr>hit := hit n + 2\<rparr>
            else n1\<lparr>hit := hit n1 + 1\<rparr> = n\<lparr>hit := hit n + 1, miss := miss n + 1,
                   evictions := evictions n + (if out = MissEvict then 1 else 0)\<rparr>)"
  proof (cases rule: access_cache_Inr_cases)
    case (hit i)
    from hit_scan_Some [OF hit(1)]
    have "\<exists>k < length (sets c ! set_index c a).
                valid (sets c ! set_index c a ! k) \<noteq> 0 \<and>
                tag (sets c ! set_index c a ! k) = block_tag c a"
      by blast
    with hit(2,4) assms(8) show ?thesis by simp
  next
    case (fill i)
    from nohit [OF fill(1)] fill(3,5) h show ?thesis by simp
  next
    case evict
    from nohit [OF evict(1)] evict(5,7) h show ?thesis by simp
  qed
  from access_cache_again [OF inv a1, of n1] cnt
  have a2: "access_cache c1 a n1 = Inr (Hit, c1, n1\<lparr>hit := hit n1 + 1\<rparr>)" by simp
  have r: "runsim c [(CHR ''M'', a, sz)] n = Inr (c1, n1\<lparr>hit := hit n1 + 1\<rparr>)"
    by (simp add: a1 a2)
  from a1 a2 r cnt show ?thesis by blast
qed

theorem modify_second_hit_witness:
  "makecache unlimited 1 2 1 = Inr ex_fresh \<and>
   runsim ex_fresh [(CHR ''L'', 0, 1), (CHR ''L'', 4, 1)] zero_counts =
     Inr (ex_full, \<lparr>hit = 0, miss = 2, evictions = 0\<rparr>) \<and>
   (0::int) \<le> 1 \<and> (1::int) \<le> 30 \<and> (1::int) \<le> 2 \<and> (1::int) + 1 \<le> 63 \<and>
   hit \<lparr>hit = 0, miss = 2, evictions = 0\<rparr> < INT_MAX - 1 \<and>
   miss \<lparr>hit = 0, miss = 2, evictions = 0\<rparr> < INT_MAX \<and>
   evictions \<lparr>hit = 0, miss = 2, evictions = 0\<rparr> < INT_MAX \<and>
   (\<exists>out c1 n1.
      access_cache ex_full 8 \<lparr>hit = 0, miss = 2, evictions = 0\<rparr> = Inr (out, c1, n1) \<and>
      access_cache c1 8 n1 = Inr (Hit, c1, n1\<lparr>hit := hit n1 + 1\<rparr>) \<and>
      runsim ex_full [(CHR ''M'', 8, 1)] \<lparr>hit = 0, miss = 2, evictions = 0\<rparr> =
        Inr (c1, n1\<lparr>hit := hit n1 + 1\<rparr>)) \<and>
   runsim ex_full [(CHR ''M'', 8, 1)] \<lparr>hit = 0, miss = 2, evictions = 0\<rparr> =
     Inr (ex_evicted, \<lparr>hit = 1, miss = 3, evictions = 1\<rparr>)"
proof -
  have e: "(0::int) \<le> 1" "(1::int) \<le> 30" "(1::int) \<le> 2" "(1::int) + 1 \<le> 63" by simp_all
  have k: "hit \<lparr>hit = 0, miss = 2, evictions = 0\<rparr> < INT_MAX - 1"
    "miss \<lparr>hit = 0, miss = 2, evictions = 0\<rparr> < INT_MAX"
    "evictions \<lparr>hit = 0, miss = 2, evictions = 0\<rparr> < INT_MAX"
    by (simp_all add: INT_MAX_def)
  have ev: "access_cache ex_full 8 \<lparr>hit = 0, miss = 2, evictions = 0\<rparr> =
      Inr (MissEvict, ex_evicted, \<lparr>hit = 0, miss = 3, evictions = 1\<rparr>)"
    by (simp add: access_eval ex_full_def ex_evicted_def)
  from modify_second_hit [OF ex_make ex_run2 e(1,2,3,1,4) k, of 8 1]
  obtain out c1 n1 where
    h: "access_cache ex_full 8 \<lparr>hit = 0, miss = 2, evictions = 0\<rparr> = Inr (out, c1, n1)"
       "access_cache c1 8 n1 = Inr (Hit, c1, n1\<lparr>hit := hit n1 + 1\<rparr>)"
       "runsim ex_full [(CHR ''M'', 8, 1)] \<lparr>hit = 0, miss = 2, evictions = 0\<rparr> =
          Inr (c1, n1\<lparr>hit := hit n1 + 1\<rparr>)"
    by blast
  from h(1) have "c1 = ex_evicted" "n1 = \<lparr>hit = 0, miss = 3, evictions = 1\<rparr>"
    by (simp_all add: ev)
  with h have x: "\<exists>out c1 n1.
      access_cache ex_full 8 \<lparr>hit = 0, miss = 2, evictions = 0\<rparr> = Inr (out, c1, n1) \<and>
      access_cache c1 8 n1 = Inr (Hit, c1, n1\<lparr>hit := hit n1 + 1\<rparr>) \<and>
      runsim ex_full [(CHR ''M'', 8, 1)] \<lparr>hit = 0, miss = 2, evictions = 0\<rparr> =
        Inr (c1, n1\<lparr>hit := hit n1 + 1\<rparr>)"
    "runsim ex_full [(CHR ''M'', 8, 1)] \<lparr>hit = 0, miss = 2, evictions = 0\<rparr> =
       Inr (ex_evicted, \<lparr>hit = 1, miss = 3, evictions = 1\<rparr>)"
    by auto
  from ex_make ex_run2 e k x show ?thesis by (intro conjI)
qed



text \<open>
  C9, totality of access: for every cache constructed with \<open>E \<ge> 1\<close> and \<open>s + b \<le> 64\<close> and
  every address, \<^verbatim>\<open>access_cache\<close> ends without an error: the set index is below \<open>S\<close>,
  every line index is below \<open>E\<close>, and the index from \<^verbatim>\<open>find_lru\<close> is in \<open>0 .. E-1\<close>.
  Not within these bounds. \<^verbatim>\<open>-s 32 -E 1 -b 1\<close> has \<open>E \<ge> 1\<close> and \<open>s + b = 33\<close>: \<^verbatim>\<open>makecache\<close>
  computes \<^verbatim>\<open>1 << 32\<close> on an \<^verbatim>\<open>int\<close>, which C leaves undefined, and on the cache it then
  builds, with one set (\<open>ex_s32\<close>), the accesses to the addresses 2 and \<open>2^32\<close> use the set
  indices 1 and \<open>2^31\<close>, outside the array of sets (the second one is outside whatever
  \<open>S\<close> was computed, see \<open>s32_out_of_bounds\<close>). \<^verbatim>\<open>-s 4 -E 1 -b 60\<close> has \<open>s + b = 64\<close>, and
  the tag is \<^verbatim>\<open>*address >> 64\<close>, a shift by the full width, undefined as well. And
  \<open>2^31\<close> loads of address 0 at \<^verbatim>\<open>-s 1 -E 2 -b 1\<close> leave the hit counter at \<open>INT_MAX\<close>, where
  the next hit overflows it.
\<close>

theorem access_total_counterexample:
  "main_init unlimited 0 False 32 1 1 False = Inl UndefinedShift \<and>
   access_cache ex_s32 2 zero_counts = Inl OutOfBounds \<and>
   access_cache ex_s32 4294967296 zero_counts = Inl OutOfBounds \<and>
   main_init unlimited 0 False 4 1 60 False = Inr ex_wide \<and>
   access_cache ex_wide 0 zero_counts = Inl UndefinedShift \<and>
   runsim ex_fresh (repeat_load 2147483648) zero_counts =
     Inr (ex_one, \<lparr>hit = 2147483647, miss = 1, evictions = 0\<rparr>) \<and>
   access_cache ex_one 0 \<lparr>hit = 2147483647, miss = 1, evictions = 0\<rparr> = Inl SignedOverflow"
proof -
  have "access_cache ex_s32 4294967296 zero_counts = Inl OutOfBounds"
    by (rule s32_out_of_bounds) (simp_all add: ex_s32_def)
  with ex_s32_main ex_s32_access ex_wide_main ex_wide_access [of 0 zero_counts]
    ex_loads_max ex_overflow_hit
  show ?thesis by (intro conjI)
qed

text \<open>
  C9 as amended. In every cache the program reaches from a \<^verbatim>\<open>makecache\<close> with
  \<open>0 \<le> s \<le> 30\<close>, \<open>E \<ge> 1\<close>, \<open>b \<ge> 0\<close> and \<open>s + b \<le> 63\<close>, an access to any address with the
  three counters below \<open>INT_MAX\<close> returns an outcome; the array of sets has \<open>S\<close> entries
  and the set index is below it; the set has \<open>E\<close> lines and the indices found by the two
  scans and by \<^verbatim>\<open>find_lru\<close> are below \<open>E\<close>. Every loop of the access is a total function
  here (each counts \<open>i\<close> up to \<open>E\<close>).
\<close>

theorem access_total:
  assumes "makecache ok s E b = Inr c0" and "runsim c0 evs n0 = Inr (c, n)"
    and "0 \<le> s" and "s \<le> 30" and "1 \<le> E" and "0 \<le> b" and "s + b \<le> 63"
    and "hit m < INT_MAX" and "miss m < INT_MAX" and "evictions m < INT_MAX"
  shows "(\<exists>out c' m'. access_cache c a m = Inr (out, c', m')) \<and>
         int (length (sets c)) = c_S c \<and>
         set_index c a < length (sets c) \<and>
         int (length (sets c ! set_index c a)) = c_E c \<and>
         (\<exists>i. hit_scan (c_E c) (sets c ! set_index c a) (block_tag c a) 0 = Inr i \<and>
              (case i of None \<Rightarrow> True | Some k \<Rightarrow> int k < c_E c)) \<and>
         (\<exists>i. empty_scan (c_E c) (sets c ! set_index c a) 0 = Inr i \<and>
              (case i of None \<Rightarrow> True | Some k \<Rightarrow> int k < c_E c)) \<and>
         (\<exists>j. find_lru c (sets c ! set_index c a) = Inr j \<and> int j < c_E c)"
proof -
  from assms(7) have sb: "s + b < 64" by simp
  have inv: "cache_inv s E b c" using assms(1,2) by (rule reached_inv)
  then have E: "c_E c = E" and S: "int (length (sets c)) = c_S c" by (simp_all add: cache_inv_def)
  have idx: "set_index c a < length (sets c)" using inv by (rule cache_inv_index)
  have z: "zero_lru E (sets c ! set_index c a)" using inv idx by (rule cache_inv_set)
  then have len: "length (sets c ! set_index c a) = nat E" by (simp add: zero_lru_def)
  have t: "\<exists>out c' m'. access_cache c a m = Inr (out, c', m')"
    using inv assms(6) sb assms(5,8,9,10) by (rule access_cache_total)
  from hit_scan_total [of E "sets c ! set_index c a" "block_tag c a" 0] len
  obtain r where r: "hit_scan E (sets c ! set_index c a) (block_tag c a) 0 = Inr r" by auto
  have r': "case r of None \<Rightarrow> True | Some k \<Rightarrow> int k < E"
    using hit_scan_Some [of E "sets c ! set_index c a" "block_tag c a" 0] r
    by (cases r) simp_all
  from empty_scan_total [of E "sets c ! set_index c a" 0] len
  obtain q where q: "empty_scan E (sets c ! set_index c a) 0 = Inr q" by auto
  have q': "case q of None \<Rightarrow> True | Some k \<Rightarrow> int k < E"
    using empty_scan_Some [of E "sets c ! set_index c a" 0] q
    by (cases q) simp_all
  have f: "find_lru c (sets c ! set_index c a) = Inr 0"
    using z by (intro find_lru_zero) (simp add: E)
  from t S idx len r r' q q' f assms(5) show ?thesis unfolding E by auto
qed

theorem access_total_witness:
  "makecache unlimited 1 2 1 = Inr ex_fresh \<and>
   runsim ex_fresh [(CHR ''L'', 0, 1), (CHR ''L'', 4, 1)] zero_counts =
     Inr (ex_full, \<lparr>hit = 0, miss = 2, evictions = 0\<rparr>) \<and>
   (0::int) \<le> 1 \<and> (1::int) \<le> 30 \<and> (1::int) \<le> 2 \<and> (1::int) + 1 \<le> 63 \<and>
   hit zero_counts < INT_MAX \<and> miss zero_counts < INT_MAX \<and> evictions zero_counts < INT_MAX \<and>
   (\<exists>out c' m'. access_cache ex_full 8 zero_counts = Inr (out, c', m')) \<and>
   set_index ex_full 8 < length (sets ex_full) \<and>
   (\<exists>j. find_lru ex_full (sets ex_full ! set_index ex_full 8) = Inr j \<and> int j < c_E ex_full)"
proof -
  have e: "(0::int) \<le> 1" "(1::int) \<le> 30" "(1::int) \<le> 2" "(1::int) + 1 \<le> 63" by simp_all
  have k: "hit zero_counts < INT_MAX" "miss zero_counts < INT_MAX" "evictions zero_counts < INT_MAX"
    by (simp_all add: zero_counts_def INT_MAX_def)
  from ex_make ex_run2 e k access_total [OF ex_make ex_run2 e(1,2,3,1,4) k, of 8]
  show ?thesis by (intro conjI) simp_all
qed

text \<open>
  C10, the frame of a hit: in any cache state, if \<^verbatim>\<open>access_cache\<close> returns Hit, the
  valid bit and the tag of every line of every set are unchanged; only recencies of
  the target set may change.
  For every cache (reached by the program or not): after a hit the array of sets has
  its length, every set has its length, its valid bits and its tags, every set other
  than the target set is unchanged as a whole, and so are \<open>s\<close>, \<open>E\<close>, \<open>b\<close>, \<open>S\<close>; the hit
  counter is one higher and the other two counters are unchanged.
\<close>

theorem hit_frame:
  assumes "access_cache c a m = Inr (Hit, c', m')"
  shows "length (sets c') = length (sets c) \<and>
         (\<forall>i < length (sets c).
            length (sets c' ! i) = length (sets c ! i) \<and>
            map valid (sets c' ! i) = map valid (sets c ! i) \<and>
            map tag (sets c' ! i) = map tag (sets c ! i) \<and>
            (i \<noteq> set_index c a \<longrightarrow> sets c' ! i = sets c ! i)) \<and>
         c_s c' = c_s c \<and> c_E c' = c_E c \<and> c_b c' = c_b c \<and> c_S c' = c_S c \<and>
         m' = m\<lparr>hit := hit m + 1\<rparr>"
proof -
  from access_cache_Hit [OF assms] obtain i ls'
    where idx: "set_index c a < length (sets c)" and m': "m' = m\<lparr>hit := hit m + 1\<rparr>"
      and u: "lru_update_fun c (sets c ! set_index c a) i = Inr ls'"
      and c': "c' = c\<lparr>sets := (sets c)[set_index c a := ls']\<rparr>"
    by blast
  note f = lru_update_frame [OF u]
  have "length (sets c' ! j) = length (sets c ! j) \<and>
        map valid (sets c' ! j) = map valid (sets c ! j) \<and>
        map tag (sets c' ! j) = map tag (sets c ! j) \<and>
        (j \<noteq> set_index c a \<longrightarrow> sets c' ! j = sets c ! j)" if "j < length (sets c)" for j
    using that f by (cases "j = set_index c a") (simp_all add: c')
  then show ?thesis by (simp add: c' m')
qed

theorem hit_frame_witness:
  "access_cache ex_ranked 7 zero_counts = Inr (Hit, ex_reranked, \<lparr>hit = 1, miss = 0, evictions = 0\<rparr>) \<and>
   map valid (sets ex_reranked ! 0) = map valid (sets ex_ranked ! 0) \<and>
   map tag (sets ex_reranked ! 0) = map tag (sets ex_ranked ! 0) \<and>
   map lru (sets ex_ranked ! 0) = [0, 1] \<and> map lru (sets ex_reranked ! 0) = [1, 0]"
proof -
  have h: "access_cache ex_ranked 7 zero_counts =
      Inr (Hit, ex_reranked, \<lparr>hit = 1, miss = 0, evictions = 0\<rparr>)"
    by (simp add: access_eval zero_counts_def ex_ranked_def ex_reranked_def)
  have l: "length (sets ex_ranked) = 1" by (simp add: ex_ranked_def)
  from h hit_frame [OF h] l show ?thesis
    by (intro conjI) (simp_all add: ex_ranked_def ex_reranked_def)
qed

end
